theory Spec2Isabelle
  imports Main
begin

section \<open>Python values used by the PDF export\<close>

text \<open>
  The export lives in two modules, \<^verbatim>\<open>Util/pdf_table.py\<close> (table layout and pagination)
  and \<^verbatim>\<open>Util/pdf_writer.py\<close> (the PDF serialiser). Both are pure Python over \<^verbatim>\<open>str\<close>,
  \<^verbatim>\<open>int\<close>, \<^verbatim>\<open>list\<close> and \<^verbatim>\<open>bytes\<close>.

  A Python \<^verbatim>\<open>str\<close> is a sequence of Unicode code points and \<^verbatim>\<open>len\<close> counts code points, so a
  string is modelled as a list of code points (natural numbers). A \<^verbatim>\<open>bytes\<close> value is a list
  of numbers below 256. \<^verbatim>\<open>str.encode("latin-1")\<close> is the identity on code points below 256
  and raises \<^verbatim>\<open>UnicodeEncodeError\<close> otherwise. Indexing a list out of range raises
  \<^verbatim>\<open>IndexError\<close>.
\<close>

datatype py_error = IndexError | UnicodeEncodeError

type_synonym ustr = "nat list"
type_synonym bytes = "nat list"

text \<open>String literals of the source, as code points.\<close>

definition lit :: "string \<Rightarrow> ustr" where
  "lit s = map of_char s"

definition latin1 :: "ustr \<Rightarrow> bool" where
  "latin1 s = list_all (\<lambda>c. c < 256) s"

definition encode_latin1 :: "ustr \<Rightarrow> py_error + bytes" where
  "encode_latin1 s = (if latin1 s then Inr s else Inl UnicodeEncodeError)"

text \<open>\<^verbatim>\<open>str(n)\<close> and the \<^verbatim>\<open>{n}\<close> of an f-string, for a non-negative and for any integer.\<close>

fun str_nat :: "nat \<Rightarrow> ustr" where
  "str_nat n = (if n < 10 then [48 + n] else str_nat (n div 10) @ [48 + n mod 10])"

declare str_nat.simps [simp del]

definition str_int :: "int \<Rightarrow> ustr" where
  "str_int i = (if i < 0 then 45 # str_nat (nat (- i)) else str_nat (nat i))"

text \<open>\<^verbatim>\<open>f"{offset:010d}"\<close> for a non-negative offset: zero-filled to at least ten digits.\<close>

definition format_010d :: "nat \<Rightarrow> ustr" where
  "format_010d n = replicate (10 - length (str_nat n)) 48 @ str_nat n"

text \<open>\<^verbatim>\<open>sep.join(parts)\<close>.\<close>

fun join :: "'a list \<Rightarrow> 'a list list \<Rightarrow> 'a list" where
  "join sep [] = []"
| "join sep [x] = x"
| "join sep (x # y # ys) = x @ sep @ join sep (y # ys)"

text \<open>\<^verbatim>\<open>s.replace(c, r)\<close> for a one-character pattern \<open>c\<close>.\<close>

definition replace_char :: "nat \<Rightarrow> ustr \<Rightarrow> ustr \<Rightarrow> ustr" where
  "replace_char c r s = concat (map (\<lambda>x. if x = c then r else [x]) s)"

text \<open>\<^verbatim>\<open>s.ljust(w)\<close>: spaces are appended up to width \<open>w\<close>; a longer string is unchanged.\<close>

definition ljust :: "ustr \<Rightarrow> nat \<Rightarrow> ustr" where
  "ljust s w = s @ replicate (w - length s) 32"

text \<open>\<^verbatim>\<open>b.endswith(b"\n")\<close>.\<close>

definition ends_with_newline :: "bytes \<Rightarrow> bool" where
  "ends_with_newline b = (b \<noteq> [] \<and> last b = 10)"

text \<open>
  \<^verbatim>\<open>str.splitlines()\<close>: the line boundaries of Python are LF, VT, FF, CR, FS, GS, RS, NEL,
  LS and PS; CR LF counts as one boundary; no empty last line is produced.
\<close>

definition is_linebreak :: "nat \<Rightarrow> bool" where
  "is_linebreak c = (c \<in> set [10, 11, 12, 13, 28, 29, 30, 133, 8232, 8233])"

fun splitlines_from :: "ustr \<Rightarrow> ustr \<Rightarrow> ustr list" where
  "splitlines_from cur [] = (if cur = [] then [] else [cur])"
| "splitlines_from cur (c # cs) =
     (if is_linebreak c then
        (case cs of
           [] \<Rightarrow> [cur]
         | d # ds \<Rightarrow> if c = 13 \<and> d = 10 then cur # splitlines_from [] ds
                     else cur # splitlines_from [] cs)
      else splitlines_from (cur @ [c]) cs)"

definition splitlines :: "ustr \<Rightarrow> ustr list" where
  "splitlines s = splitlines_from [] s"

text \<open>\<^verbatim>\<open>str.strip()\<close>: removes the white space of Python at both ends.\<close>

definition is_space :: "nat \<Rightarrow> bool" where
  "is_space c = (c \<in> set [9, 10, 11, 12, 13, 28, 29, 30, 31, 32, 133, 160, 5760,
      8192, 8193, 8194, 8195, 8196, 8197, 8198, 8199, 8200, 8201, 8202,
      8232, 8233, 8239, 8287, 12288])"

definition strip :: "ustr \<Rightarrow> ustr" where
  "strip s = rev (dropWhile is_space (rev (dropWhile is_space s)))"

text \<open>\<^verbatim>\<open>xs[i] = v\<close>.\<close>

definition set_item :: "'a list \<Rightarrow> nat \<Rightarrow> 'a \<Rightarrow> py_error + 'a list" where
  "set_item xs i v = (if i < length xs then Inr (xs[i := v]) else Inl IndexError)"

section \<open>\<^verbatim>\<open>Util/pdf_writer.py\<close>\<close>

definition PAGE_WIDTH :: int where "PAGE_WIDTH = 612"
definition PAGE_HEIGHT :: int where "PAGE_HEIGHT = 792"
definition MARGIN :: int where "MARGIN = 40"

type_synonym item = "ustr \<times> int"

definition escape :: "ustr \<Rightarrow> ustr" where
  "escape v = replace_char 41 [92, 41] (replace_char 40 [92, 40] (replace_char 92 [92, 92] v))"

definition text_command :: "int \<Rightarrow> int \<Rightarrow> ustr \<Rightarrow> ustr" where
  "text_command sz y txt =
     lit ''BT /F1 '' @ str_int sz @ lit '' Tf '' @ str_int MARGIN @ lit '' '' @ str_int y
       @ lit '' Td ('' @ escape txt @ lit '') Tj ET''"

fun content_loop :: "item list \<Rightarrow> int \<Rightarrow> ustr list \<Rightarrow> ustr list" where
  "content_loop [] y commands = commands"
| "content_loop ((txt, sz) # items) y commands =
     (let y1 = y - sz;
          commands1 = commands @ [text_command sz (max y1 MARGIN) txt]
      in content_loop items (y1 - 4) commands1)"

definition build_content_stream :: "item list \<Rightarrow> ustr" where
  "build_content_stream items =
     join (lit ''\<newline>'') (content_loop items (PAGE_HEIGHT - MARGIN) [])"

definition add_object :: "ustr option list \<Rightarrow> ustr option \<Rightarrow> ustr option list \<times> nat" where
  "add_object objects content = (objects @ [content], length (objects @ [content]) - 1)"

definition font_body :: ustr where
  "font_body = lit ''<< /Type /Font /Subtype /Type1 /BaseFont /Courier >>''"

definition content_body :: "ustr \<Rightarrow> ustr" where
  "content_body stream =
     lit ''<< /Length '' @ str_nat (length stream) @ lit '' >>\<newline>stream\<newline>'' @ stream
       @ lit ''\<newline>endstream''"

definition pages_body :: "nat \<Rightarrow> ustr \<Rightarrow> ustr" where
  "pages_body count kids =
     lit ''<< /Type /Pages /Count '' @ str_nat count @ lit '' /Kids ['' @ kids @ lit ''] >>''"

definition page_body :: "nat \<Rightarrow> nat \<Rightarrow> nat \<Rightarrow> ustr" where
  "page_body parent content font =
     lit ''<< /Type /Page /Parent '' @ str_nat parent @ lit '' 0 R /MediaBox [0 0 ''
       @ str_int PAGE_WIDTH @ lit '' '' @ str_int PAGE_HEIGHT @ lit ''] /Contents ''
       @ str_nat content @ lit '' 0 R /Resources << /Font << /F1 '' @ str_nat font
       @ lit '' 0 R >> >> >>''"

definition catalog_body :: "nat \<Rightarrow> ustr" where
  "catalog_body pages_id = lit ''<< /Type /Catalog /Pages '' @ str_nat pages_id @ lit '' 0 R >>''"

text \<open>The loop over \<^verbatim>\<open>pages\<close> of \<^verbatim>\<open>render_pdf\<close>; its state is \<^verbatim>\<open>objects\<close> and \<^verbatim>\<open>page_refs\<close>.\<close>

fun pages_loop ::
  "item list list \<Rightarrow> ustr option list \<Rightarrow> (nat \<times> nat) list
     \<Rightarrow> ustr option list \<times> (nat \<times> nat) list" where
  "pages_loop [] objects page_refs = (objects, page_refs)"
| "pages_loop (page # pages) objects page_refs =
     (let stream = build_content_stream page;
          content = content_body stream;
          (objects1, content_id) = add_object objects (Some content);
          (objects2, page_id) = add_object objects1 None
      in pages_loop pages objects2 (page_refs @ [(page_id, content_id)]))"

text \<open>The loop that fills the page dictionaries.\<close>

fun fill_pages ::
  "(nat \<times> nat) list \<Rightarrow> nat \<Rightarrow> nat \<Rightarrow> ustr option list \<Rightarrow> py_error + ustr option list" where
  "fill_pages [] pages_id font_id objects = Inr objects"
| "fill_pages ((page_id, content_id) # refs) pages_id font_id objects =
     (case set_item objects page_id (Some (page_body pages_id content_id font_id)) of
        Inl e \<Rightarrow> Inl e
      | Inr objects1 \<Rightarrow> fill_pages refs pages_id font_id objects1)"

text \<open>\<^verbatim>\<open>render_pdf\<close> up to its last line: the object table and the catalog's id.\<close>

definition render_objects :: "item list list \<Rightarrow> py_error + (ustr option list \<times> nat)" where
  "render_objects pages =
     (let (objects1, font_id) = add_object [None] (Some font_body);
          (objects2, page_refs) = pages_loop pages objects1 [];
          (objects3, pages_id) = add_object objects2 None;
          (objects4, catalog_id) = add_object objects3 None;
          kids = join (lit '' '') (map (\<lambda>(page_id, _). str_nat page_id @ lit '' 0 R'') page_refs)
      in case set_item objects4 pages_id (Some (pages_body (length page_refs) kids)) of
           Inl e \<Rightarrow> Inl e
         | Inr objects5 \<Rightarrow>
             (case fill_pages page_refs pages_id font_id objects5 of
                Inl e \<Rightarrow> Inl e
              | Inr objects6 \<Rightarrow>
                  (case set_item objects6 catalog_id (Some (catalog_body pages_id)) of
                     Inl e \<Rightarrow> Inl e
                   | Inr objects7 \<Rightarrow> Inr (objects7, catalog_id))))"

text \<open>The first loop of \<^verbatim>\<open>_build_pdf_bytes\<close>, over \<^verbatim>\<open>enumerate(objects[1:], start=1)\<close>.\<close>

fun objects_loop ::
  "ustr option list \<Rightarrow> nat \<Rightarrow> nat list \<Rightarrow> bytes \<Rightarrow> py_error + (nat list \<times> bytes)" where
  "objects_loop [] index offsets output = Inr (offsets, output)"
| "objects_loop (content # rest) index offsets output =
     (let offsets1 = offsets @ [length output] in
      case encode_latin1 (str_nat index @ lit '' 0 obj\<newline>'') of
        Inl e \<Rightarrow> Inl e
      | Inr header \<Rightarrow>
          (case encode_latin1 (case content of None \<Rightarrow> [] | Some c \<Rightarrow> c) of
             Inl e \<Rightarrow> Inl e
           | Inr body \<Rightarrow>
               (let output1 = output @ header @ body;
                    output2 = (if \<not> ends_with_newline body then output1 @ lit ''\<newline>''
                               else output1);
                    output3 = output2 @ lit ''endobj\<newline>''
                in objects_loop rest (index + 1) offsets1 output3)))"

text \<open>The second loop, over \<^verbatim>\<open>offsets\<close>.\<close>

fun xref_loop :: "nat list \<Rightarrow> bytes \<Rightarrow> py_error + bytes" where
  "xref_loop [] output = Inr output"
| "xref_loop (offset # offsets) output =
     (case encode_latin1 (format_010d offset @ lit '' 00000 n \<newline>'') of
        Inl e \<Rightarrow> Inl e
      | Inr entry \<Rightarrow> xref_loop offsets (output @ entry))"

definition trailer_text :: "nat \<Rightarrow> nat \<Rightarrow> nat \<Rightarrow> ustr" where
  "trailer_text tot catalog_id xref_position =
     lit ''trailer\<newline><< /Size '' @ str_nat tot @ lit '' /Root '' @ str_nat catalog_id
       @ lit '' 0 R >>\<newline>startxref\<newline>'' @ str_nat xref_position @ lit ''\<newline>%%EOF''"

definition build_pdf_bytes :: "ustr option list \<Rightarrow> nat \<Rightarrow> py_error + bytes" where
  "build_pdf_bytes objects catalog_id =
     (case objects_loop (drop 1 objects) 1 [] (lit ''%PDF-1.4\<newline>'') of
        Inl e \<Rightarrow> Inl e
      | Inr (offsets, output) \<Rightarrow>
          (let xref_position = length output;
               tot = length objects
           in case encode_latin1 (lit ''xref\<newline>0 '' @ str_nat tot @ lit ''\<newline>'') of
                Inl e \<Rightarrow> Inl e
              | Inr xref_head \<Rightarrow>
                  (case xref_loop offsets
                          (output @ xref_head @ lit ''0000000000 65535 f \<newline>'') of
                     Inl e \<Rightarrow> Inl e
                   | Inr output1 \<Rightarrow>
                       (case encode_latin1 (trailer_text tot catalog_id xref_position) of
                          Inl e \<Rightarrow> Inl e
                        | Inr trailer \<Rightarrow> Inr (output1 @ trailer)))))"

definition render_pdf :: "item list list \<Rightarrow> py_error + bytes" where
  "render_pdf pages =
     (case render_objects pages of
        Inl e \<Rightarrow> Inl e
      | Inr (objects, catalog_id) \<Rightarrow> build_pdf_bytes objects catalog_id)"

section \<open>\<^verbatim>\<open>Util/pdf_table.py\<close>\<close>

text \<open>
  A cell is \<^verbatim>\<open>None\<close> or a value that \<^verbatim>\<open>str\<close> turns into a string; the model takes that
  string. \<^verbatim>\<open>_split_cell\<close> never returns an empty list.
\<close>

definition split_cell :: "ustr option \<Rightarrow> ustr list" where
  "split_cell v =
     (let txt = (case v of None \<Rightarrow> [] | Some s \<Rightarrow> s);
          parts = (if splitlines txt = [] then [[]] else splitlines txt)
      in map strip parts)"

text \<open>The three nested loops of \<^verbatim>\<open>_column_widths\<close>, innermost first.\<close>

fun widths_parts :: "ustr list \<Rightarrow> nat \<Rightarrow> nat list \<Rightarrow> py_error + nat list" where
  "widths_parts [] index widths = Inr widths"
| "widths_parts (part # parts) index widths =
     (if index < length widths
      then widths_parts parts index (widths[index := max (widths ! index) (length part)])
      else Inl IndexError)"

fun widths_row :: "ustr list list \<Rightarrow> nat \<Rightarrow> nat list \<Rightarrow> py_error + nat list" where
  "widths_row [] index widths = Inr widths"
| "widths_row (parts # row) index widths =
     (case widths_parts parts index widths of
        Inl e \<Rightarrow> Inl e
      | Inr widths1 \<Rightarrow> widths_row row (index + 1) widths1)"

fun widths_rows :: "ustr list list list \<Rightarrow> nat list \<Rightarrow> py_error + nat list" where
  "widths_rows [] widths = Inr widths"
| "widths_rows (row # rows) widths =
     (case widths_row row 0 widths of
        Inl e \<Rightarrow> Inl e
      | Inr widths1 \<Rightarrow> widths_rows rows widths1)"

definition column_widths :: "ustr list \<Rightarrow> ustr list list list \<Rightarrow> py_error + nat list" where
  "column_widths headers rows =
     (case widths_rows rows (map length headers) of
        Inl e \<Rightarrow> Inl e
      | Inr widths \<Rightarrow> Inr (map (\<lambda>width. width + 2) widths))"

text \<open>The comprehension of \<^verbatim>\<open>_format_row\<close>, over \<^verbatim>\<open>enumerate(cells)\<close>.\<close>

fun padded_cells :: "ustr list \<Rightarrow> nat \<Rightarrow> nat list \<Rightarrow> py_error + ustr list" where
  "padded_cells [] index widths = Inr []"
| "padded_cells (cell # cells) index widths =
     (if index < length widths
      then (case padded_cells cells (index + 1) widths of
              Inl e \<Rightarrow> Inl e
            | Inr padded \<Rightarrow> Inr (ljust cell (widths ! index) # padded))
      else Inl IndexError)"

definition format_row :: "ustr list \<Rightarrow> nat list \<Rightarrow> py_error + ustr" where
  "format_row cells widths =
     (case padded_cells cells 0 widths of
        Inl e \<Rightarrow> Inl e
      | Inr padded \<Rightarrow> Inr (join (lit '' | '') padded))"

definition separator :: "nat list \<Rightarrow> ustr" where
  "separator widths = join (lit ''-+-'') (map (\<lambda>width. replicate width 45) widths)"

text \<open>\<^verbatim>\<open>max(len(parts) for parts in row_segments) if row_segments else 1\<close>.\<close>

definition row_height :: "ustr list list \<Rightarrow> nat" where
  "row_height row_segments =
     (if row_segments = [] then 1 else foldr max (map length row_segments) 0)"

definition line_cells :: "ustr list list \<Rightarrow> nat \<Rightarrow> ustr list" where
  "line_cells row_segments index =
     map (\<lambda>parts. if index < length parts then parts ! index else []) row_segments"

text \<open>The loop over \<^verbatim>\<open>range(height)\<close> and the loop over \<^verbatim>\<open>splits\<close> of \<^verbatim>\<open>_build_table_lines\<close>.\<close>

fun index_loop ::
  "nat list \<Rightarrow> ustr list list \<Rightarrow> nat list \<Rightarrow> ustr list \<Rightarrow> py_error + ustr list" where
  "index_loop [] row_segments col_widths lines = Inr lines"
| "index_loop (index # indices) row_segments col_widths lines =
     (case format_row (line_cells row_segments index) col_widths of
        Inl e \<Rightarrow> Inl e
      | Inr line \<Rightarrow> index_loop indices row_segments col_widths (lines @ [line]))"

fun splits_loop ::
  "ustr list list list \<Rightarrow> nat list \<Rightarrow> ustr \<Rightarrow> ustr list \<Rightarrow> py_error + ustr list" where
  "splits_loop [] col_widths sep lines = Inr lines"
| "splits_loop (row_segments # splits) col_widths sep lines =
     (let height = row_height row_segments in
      case index_loop [0..<height] row_segments col_widths lines of
        Inl e \<Rightarrow> Inl e
      | Inr lines1 \<Rightarrow> splits_loop splits col_widths sep (lines1 @ [sep]))"

definition build_table_lines :: "ustr list \<Rightarrow> ustr option list list \<Rightarrow> py_error + ustr list" where
  "build_table_lines headers rows =
     (let splits = map (map split_cell) rows in
      case column_widths headers splits of
        Inl e \<Rightarrow> Inl e
      | Inr col_widths \<Rightarrow>
          (case format_row headers col_widths of
             Inl e \<Rightarrow> Inl e
           | Inr header_line \<Rightarrow>
               (let sep = separator col_widths in
                case splits_loop splits col_widths sep [header_line, sep] of
                  Inl e \<Rightarrow> Inl e
                | Inr lines \<Rightarrow> Inr (if splits = [] then lines @ [sep] else lines))))"

definition usable_height :: int where
  "usable_height = PAGE_HEIGHT - (2 * MARGIN)"

fun paginate_loop ::
  "item list \<Rightarrow> item list list \<Rightarrow> item list \<Rightarrow> int \<Rightarrow> item list list \<times> item list" where
  "paginate_loop [] pages current used = (pages, current)"
| "paginate_loop ((txt, sz) # items) pages current used =
     (let step = sz + 4;
          (pages1, current1, used1) =
             (if current \<noteq> [] \<and> used + step > usable_height
              then (pages @ [current], [], 0)
              else (pages, current, used))
      in paginate_loop items pages1 (current1 @ [(txt, sz)]) (used1 + step))"

definition paginate :: "item list \<Rightarrow> item list list" where
  "paginate items =
     (let (pages, current) = paginate_loop items [] [] 0;
          current1 = (if current = [] then current @ [([], 10)] else current)
      in pages @ [current1])"

definition table_items :: "ustr \<Rightarrow> ustr list \<Rightarrow> item list" where
  "table_items title lines = [(title, 16), ([], 12)] @ map (\<lambda>line. (line, 10)) lines"

definition build_pdf_table ::
  "ustr \<Rightarrow> ustr list \<Rightarrow> ustr option list list \<Rightarrow> py_error + bytes" where
  "build_pdf_table title headers rows =
     (case build_table_lines headers rows of
        Inl e \<Rightarrow> Inl e
      | Inr lines \<Rightarrow> render_pdf (paginate (table_items title lines)))"

section \<open>\<^verbatim>\<open>Services/export_rows.py\<close>\<close>

text \<open>
  The third cell of \<^verbatim>\<open>event_row\<close>: \<^verbatim>\<open>", ".join(caller_labels) if caller_labels else "\<dots>"\<close>,
  where the string of the \<^verbatim>\<open>else\<close> branch is the single character U+2014 (em dash, code point
  8212).
\<close>

definition callers_cell :: "ustr list \<Rightarrow> ustr" where
  "callers_cell caller_labels =
     (if caller_labels \<noteq> [] then join (lit '', '') caller_labels else [8212])"

section \<open>Notions used to state the properties\<close>

text \<open>What escaping does to one character.\<close>

definition escaped_char :: "nat \<Rightarrow> ustr" where
  "escaped_char c =
     (if c = 92 then [92, 92] else if c = 40 then [92, 40] else if c = 41 then [92, 41] else [c])"

text \<open>
  The vertical cost of an item and of a page; a page fits when every prefix of two or more items
  stays within the usable height; the page breaks are greedy when the first item of each later
  page would not have fitted on the page before it.
\<close>

definition item_step :: "item \<Rightarrow> int" where
  "item_step it = snd it + 4"

definition page_cost :: "item list \<Rightarrow> int" where
  "page_cost p = sum_list (map item_step p)"

definition page_fits :: "item list \<Rightarrow> bool" where
  "page_fits p = list_all (\<lambda>k. page_cost (take k p) \<le> usable_height) [2..<length p + 1]"

fun greedy_breaks :: "item list list \<Rightarrow> bool" where
  "greedy_breaks (p # q # ps) =
     ((case q of [] \<Rightarrow> False | it # _ \<Rightarrow> page_cost p + item_step it > usable_height)
      \<and> greedy_breaks (q # ps))"
| "greedy_breaks _ = True"

text \<open>Items of size 10 numbered from \<open>i\<close> to \<open>j - 1\<close>.\<close>

definition numbered_items :: "nat \<Rightarrow> nat \<Rightarrow> item list" where
  "numbered_items i j = map (\<lambda>k. (str_nat k, 10)) [i..<j]"

text \<open>Reading a decimal number.\<close>

definition is_digit :: "nat \<Rightarrow> bool" where
  "is_digit c = (48 \<le> c \<and> c \<le> 57)"

definition parse_nat :: "bytes \<Rightarrow> nat" where
  "parse_nat ds = foldl (\<lambda>a c. 10 * a + (c - 48)) 0 ds"

text \<open>
  The object table as the specification describes it: slot 0 is unused, object 1 is the font,
  each page takes two consecutive ids (its content stream, then its dictionary), then come the
  page tree and the catalog.
\<close>

fun page_slots :: "item list list \<Rightarrow> ustr option list" where
  "page_slots [] = []"
| "page_slots (page # pages) =
     Some (content_body (build_content_stream page)) # None # page_slots pages"

fun page_ids :: "nat \<Rightarrow> item list list \<Rightarrow> (nat \<times> nat) list" where
  "page_ids n [] = []"
| "page_ids n (page # pages) = (n + 1, n) # page_ids (n + 2) pages"

fun page_objects :: "nat \<Rightarrow> nat \<Rightarrow> nat \<Rightarrow> item list list \<Rightarrow> ustr option list" where
  "page_objects parent font n [] = []"
| "page_objects parent font n (page # pages) =
     Some (content_body (build_content_stream page)) # Some (page_body parent n font)
       # page_objects parent font (n + 2) pages"

definition kids_text :: "nat list \<Rightarrow> ustr" where
  "kids_text ids = join (lit '' '') (map (\<lambda>i. str_nat i @ lit '' 0 R'') ids)"

definition expected_objects :: "item list list \<Rightarrow> ustr option list" where
  "expected_objects pages =
     (let P = length pages in
      [None, Some font_body] @ page_objects (2 * P + 2) 1 2 pages
        @ [Some (pages_body P (kids_text (map (\<lambda>k. 2 * k + 3) [0..<P]))),
           Some (catalog_body (2 * P + 2))])"

text \<open>The serialised form of one object, of a run of objects, and where each one starts.\<close>

definition object_bytes :: "nat \<Rightarrow> ustr option \<Rightarrow> bytes" where
  "object_bytes i content =
     (let body = (case content of None \<Rightarrow> [] | Some c \<Rightarrow> c) in
      str_nat i @ lit '' 0 obj\<newline>'' @ body
        @ (if ends_with_newline body then [] else lit ''\<newline>'') @ lit ''endobj\<newline>'')"

fun objects_bytes :: "ustr option list \<Rightarrow> nat \<Rightarrow> bytes" where
  "objects_bytes [] i = []"
| "objects_bytes (content # rest) i = object_bytes i content @ objects_bytes rest (i + 1)"

fun object_offsets :: "nat \<Rightarrow> ustr option list \<Rightarrow> nat \<Rightarrow> nat list" where
  "object_offsets pos [] i = []"
| "object_offsets pos (content # rest) i =
     pos # object_offsets (pos + length (object_bytes i content)) rest (i + 1)"

definition xref_head :: "nat \<Rightarrow> bytes" where
  "xref_head tot = lit ''xref\<newline>0 '' @ str_nat tot @ lit ''\<newline>''"

definition free_entry :: bytes where
  "free_entry = lit ''0000000000 65535 f \<newline>''"

definition xref_entry_text :: "nat \<Rightarrow> bytes" where
  "xref_entry_text offset = format_010d offset @ lit '' 00000 n \<newline>''"

definition body_of :: "ustr option \<Rightarrow> ustr" where
  "body_of content = (case content of None \<Rightarrow> [] | Some c \<Rightarrow> c)"

definition pdf_bytes :: "ustr option list \<Rightarrow> nat \<Rightarrow> bytes" where
  "pdf_bytes objects catalog_id =
     (let body = lit ''%PDF-1.4\<newline>'' @ objects_bytes (drop 1 objects) 1 in
      body @ xref_head (length objects) @ free_entry
        @ concat (map xref_entry_text (object_offsets 9 (drop 1 objects) 1))
        @ trailer_text (length objects) catalog_id (length body))"

definition page_texts_latin1 :: "item list list \<Rightarrow> bool" where
  "page_texts_latin1 pages = list_all (list_all (\<lambda>it. latin1 (fst it))) pages"

text \<open>
  Reading the cross-reference table back from the bytes, as a PDF reader does: the number in
  front of the final \<^verbatim>\<open>%%EOF\<close> line is the position of the table; the table starts with its head
  line; entry \<open>k\<close> is the \<open>k\<close>-th block of 20 bytes after it.
\<close>

definition bytes_at :: "bytes \<Rightarrow> nat \<Rightarrow> nat \<Rightarrow> bytes" where
  "bytes_at out pos n = take n (drop pos out)"

definition begins_at :: "bytes \<Rightarrow> nat \<Rightarrow> bytes \<Rightarrow> bool" where
  "begins_at out pos s = (bytes_at out pos (length s) = s)"

definition ends_with :: "bytes \<Rightarrow> bytes \<Rightarrow> bool" where
  "ends_with out s = (length s \<le> length out \<and> drop (length out - length s) out = s)"

definition read_startxref :: "bytes \<Rightarrow> nat" where
  "read_startxref out = parse_nat (rev (takeWhile is_digit (drop 6 (rev out))))"

definition xref_entry :: "bytes \<Rightarrow> nat \<Rightarrow> nat \<Rightarrow> bytes" where
  "xref_entry out tot k = bytes_at out (read_startxref out + length (xref_head tot) + 20 * k) 20"

text \<open>
  Entry \<open>i\<close> is well formed and points at object \<open>i\<close>: it has 20 bytes, ten digits followed by
  \<^verbatim>\<open> 00000 n \<close> and a newline, and at the offset the digits give, the output continues with
  \<^verbatim>\<open>i 0 obj\<close>.
\<close>

definition entry_ok :: "bytes \<Rightarrow> nat \<Rightarrow> nat \<Rightarrow> bool" where
  "entry_ok out tot i =
     (let e = xref_entry out tot i in
      length e = 20 \<and> list_all is_digit (take 10 e) \<and> drop 10 e = lit '' 00000 n \<newline>''
      \<and> begins_at out (parse_nat (take 10 e)) (str_nat i @ lit '' 0 obj''))"

text \<open>The cross-reference claim for a document of \<open>N\<close> objects.\<close>

definition xref_ok :: "bytes \<Rightarrow> nat \<Rightarrow> bool" where
  "xref_ok out N =
     (let x = read_startxref out in
      ends_with out (lit ''startxref\<newline>'' @ str_nat x @ lit ''\<newline>%%EOF'')
      \<and> begins_at out x (xref_head (N + 1))
      \<and> xref_entry out (N + 1) 0 = free_entry
      \<and> list_all (entry_ok out (N + 1)) [1..<N + 1])"

text \<open>
  The offset that entry \<open>i\<close> gives, and what it means that object \<open>i\<close> of an object table
  starts at an offset: the output up to there is the header line and the objects before \<open>i\<close>,
  no more and no less, and from there on stands object \<open>i\<close> itself.
\<close>

definition entry_offset :: "bytes \<Rightarrow> nat \<Rightarrow> nat \<Rightarrow> nat" where
  "entry_offset out tot i = parse_nat (take 10 (xref_entry out tot i))"

definition object_starts_at :: "bytes \<Rightarrow> ustr option list \<Rightarrow> nat \<Rightarrow> nat \<Rightarrow> bool" where
  "object_starts_at out objects i off =
     (take off out = lit ''%PDF-1.4\<newline>'' @ objects_bytes (take (i - 1) (drop 1 objects)) 1
      \<and> begins_at out off (object_bytes i (objects ! i)))"

text \<open>
  The cross-reference claim in full: the table is well formed, and the offset of every entry is
  the position at which its object starts.
\<close>

definition xref_exact :: "bytes \<Rightarrow> ustr option list \<Rightarrow> bool" where
  "xref_exact out objects =
     (xref_ok out (length objects - 1)
      \<and> list_all (\<lambda>i. object_starts_at out objects i (entry_offset out (length objects) i))
           [1..<length objects])"


text \<open>A text of \<open>10\<^sup>1\<^sup>0\<close> letters \<open>a\<close>, and the one-page document that shows it.\<close>

definition long_text :: ustr where
  "long_text = replicate (10 ^ 10) 97"

definition long_pages :: "item list list" where
  "long_pages = [[(long_text, 10)]]"

text \<open>A one-page document with the single line \<^verbatim>\<open>Hi\<close>, and the bytes it is rendered to.\<close>

definition sample_pages :: "item list list" where
  "sample_pages = [[(lit ''Hi'', 10)]]"

definition sample_pdf :: bytes where
  "sample_pdf =
     lit ''%PDF-1.4\<newline>''
     @ lit ''1 0 obj\<newline><< /Type /Font /Subtype /Type1 /BaseFont /Courier >>\<newline>endobj\<newline>''
     @ lit ''2 0 obj\<newline><< /Length 33 >>\<newline>stream\<newline>''
     @ lit ''BT /F1 10 Tf 40 742 Td (Hi) Tj ET\<newline>endstream\<newline>endobj\<newline>''
     @ lit ''3 0 obj\<newline><< /Type /Page /Parent 4 0 R /MediaBox [0 0 612 792] ''
     @ lit ''/Contents 2 0 R /Resources << /Font << /F1 1 0 R >> >> >>\<newline>endobj\<newline>''
     @ lit ''4 0 obj\<newline><< /Type /Pages /Count 1 /Kids [3 0 R] >>\<newline>endobj\<newline>''
     @ lit ''5 0 obj\<newline><< /Type /Catalog /Pages 4 0 R >>\<newline>endobj\<newline>''
     @ lit ''xref\<newline>0 6\<newline>''
     @ lit ''0000000000 65535 f \<newline>''
     @ lit ''0000000009 00000 n \<newline>''
     @ lit ''0000000077 00000 n \<newline>''
     @ lit ''0000000160 00000 n \<newline>''
     @ lit ''0000000286 00000 n \<newline>''
     @ lit ''0000000343 00000 n \<newline>''
     @ lit ''trailer\<newline><< /Size 6 /Root 5 0 R >>\<newline>startxref\<newline>392\<newline>%%EOF''"

text \<open>A document of two pages with one line each, its object table, and the bytes it is
  rendered to.\<close>

definition two_pages :: "item list list" where
  "two_pages = [[(lit ''One'', 10)], [(lit ''Two'', 10)]]"

definition two_objects :: "ustr option list" where
  "two_objects =
     [None,
      Some (lit ''<< /Type /Font /Subtype /Type1 /BaseFont /Courier >>''),
      Some (lit ''<< /Length 34 >>\<newline>stream\<newline>BT /F1 10 Tf 40 742 Td (One) Tj ET\<newline>endstream''),
      Some (lit ''<< /Type /Page /Parent 6 0 R /MediaBox [0 0 612 792] ''
            @ lit ''/Contents 2 0 R /Resources << /Font << /F1 1 0 R >> >> >>''),
      Some (lit ''<< /Length 34 >>\<newline>stream\<newline>BT /F1 10 Tf 40 742 Td (Two) Tj ET\<newline>endstream''),
      Some (lit ''<< /Type /Page /Parent 6 0 R /MediaBox [0 0 612 792] ''
            @ lit ''/Contents 4 0 R /Resources << /Font << /F1 1 0 R >> >> >>''),
      Some (lit ''<< /Type /Pages /Count 2 /Kids [3 0 R 5 0 R] >>''),
      Some (lit ''<< /Type /Catalog /Pages 6 0 R >>'')]"

definition two_pdf :: bytes where
  "two_pdf =
     lit ''%PDF-1.4\<newline>''
     @ lit ''1 0 obj\<newline><< /Type /Font /Subtype /Type1 /BaseFont /Courier >>\<newline>endobj\<newline>''
     @ lit ''2 0 obj\<newline><< /Length 34 >>\<newline>stream\<newline>''
     @ lit ''BT /F1 10 Tf 40 742 Td (One) Tj ET\<newline>endstream\<newline>endobj\<newline>''
     @ lit ''3 0 obj\<newline><< /Type /Page /Parent 6 0 R /MediaBox [0 0 612 792] ''
     @ lit ''/Contents 2 0 R /Resources << /Font << /F1 1 0 R >> >> >>\<newline>endobj\<newline>''
     @ lit ''4 0 obj\<newline><< /Length 34 >>\<newline>stream\<newline>''
     @ lit ''BT /F1 10 Tf 40 742 Td (Two) Tj ET\<newline>endstream\<newline>endobj\<newline>''
     @ lit ''5 0 obj\<newline><< /Type /Page /Parent 6 0 R /MediaBox [0 0 612 792] ''
     @ lit ''/Contents 4 0 R /Resources << /Font << /F1 1 0 R >> >> >>\<newline>endobj\<newline>''
     @ lit ''6 0 obj\<newline><< /Type /Pages /Count 2 /Kids [3 0 R 5 0 R] >>\<newline>endobj\<newline>''
     @ lit ''7 0 obj\<newline><< /Type /Catalog /Pages 6 0 R >>\<newline>endobj\<newline>''
     @ lit ''xref\<newline>0 8\<newline>''
     @ lit ''0000000000 65535 f \<newline>''
     @ lit ''0000000009 00000 n \<newline>''
     @ lit ''0000000077 00000 n \<newline>''
     @ lit ''0000000161 00000 n \<newline>''
     @ lit ''0000000287 00000 n \<newline>''
     @ lit ''0000000371 00000 n \<newline>''
     @ lit ''0000000497 00000 n \<newline>''
     @ lit ''0000000560 00000 n \<newline>''
     @ lit ''trailer\<newline><< /Size 8 /Root 7 0 R >>\<newline>startxref\<newline>609\<newline>%%EOF''"

text \<open>The three lines of the table with headers \<^verbatim>\<open>A\<close>, \<^verbatim>\<open>B\<close> and no rows, and its document
  for the title \<^verbatim>\<open>T\<close>.\<close>

definition ab_lines :: "ustr list" where
  "ab_lines = [lit ''A   | B  '', lit ''----+----'', lit ''----+----'']"

definition ab_pdf :: bytes where
  "ab_pdf =
     lit ''%PDF-1.4\<newline>''
     @ lit ''1 0 obj\<newline><< /Type /Font /Subtype /Type1 /BaseFont /Courier >>\<newline>endobj\<newline>''
     @ lit ''2 0 obj\<newline><< /Length 187 >>\<newline>stream\<newline>''
     @ lit ''BT /F1 16 Tf 40 736 Td (T) Tj ET\<newline>''
     @ lit ''BT /F1 12 Tf 40 720 Td () Tj ET\<newline>''
     @ lit ''BT /F1 10 Tf 40 706 Td (A   | B  ) Tj ET\<newline>''
     @ lit ''BT /F1 10 Tf 40 692 Td (----+----) Tj ET\<newline>''
     @ lit ''BT /F1 10 Tf 40 678 Td (----+----) Tj ET\<newline>endstream\<newline>endobj\<newline>''
     @ lit ''3 0 obj\<newline><< /Type /Page /Parent 4 0 R /MediaBox [0 0 612 792] ''
     @ lit ''/Contents 2 0 R /Resources << /Font << /F1 1 0 R >> >> >>\<newline>endobj\<newline>''
     @ lit ''4 0 obj\<newline><< /Type /Pages /Count 1 /Kids [3 0 R] >>\<newline>endobj\<newline>''
     @ lit ''5 0 obj\<newline><< /Type /Catalog /Pages 4 0 R >>\<newline>endobj\<newline>''
     @ lit ''xref\<newline>0 6\<newline>''
     @ lit ''0000000000 65535 f \<newline>''
     @ lit ''0000000009 00000 n \<newline>''
     @ lit ''0000000077 00000 n \<newline>''
     @ lit ''0000000315 00000 n \<newline>''
     @ lit ''0000000441 00000 n \<newline>''
     @ lit ''0000000498 00000 n \<newline>''
     @ lit ''trailer\<newline><< /Size 6 /Root 5 0 R >>\<newline>startxref\<newline>547\<newline>%%EOF''"

text \<open>
  The table layout as the specification describes it. A formatted line space-fills each cell
  on the right to the width of its column and joins the fields with \<^verbatim>\<open> | \<close>; a line with fewer
  cells than columns has only its own fields.
\<close>

definition fields :: "ustr list \<Rightarrow> nat list \<Rightarrow> ustr list" where
  "fields cells widths = map (\<lambda>(cell, width). ljust cell width) (zip cells widths)"

definition formatted :: "ustr list \<Rightarrow> nat list \<Rightarrow> ustr" where
  "formatted cells widths = join (lit '' | '') (fields cells widths)"

definition list_max :: "nat list \<Rightarrow> nat" where
  "list_max ns = foldr max ns 0"

text \<open>The lengths of all wrapped parts in column \<open>j\<close>, and the width of that column.\<close>

definition col_part_lengths :: "ustr list list list \<Rightarrow> nat \<Rightarrow> nat list" where
  "col_part_lengths splits j =
     concat (map (\<lambda>row. if j < length row then map length (row ! j) else []) splits)"

definition spec_widths :: "ustr list \<Rightarrow> ustr list list list \<Rightarrow> nat list" where
  "spec_widths headers splits =
     map (\<lambda>j. max (length (headers ! j)) (list_max (col_part_lengths splits j)) + 2)
       [0..<length headers]"

definition row_lines :: "nat list \<Rightarrow> ustr list list \<Rightarrow> ustr list" where
  "row_lines widths row_segments =
     map (\<lambda>index. formatted (line_cells row_segments index) widths) [0..<row_height row_segments]"

definition table_lines :: "ustr list \<Rightarrow> ustr option list list \<Rightarrow> ustr list" where
  "table_lines headers rows =
     (let splits = map (map split_cell) rows;
          widths = spec_widths headers splits;
          sep = separator widths
      in formatted headers widths # sep
           # concat (map (\<lambda>row_segments. row_lines widths row_segments @ [sep]) splits)
           @ (if rows = [] then [sep] else []))"

definition rows_fit :: "'a list \<Rightarrow> 'b list list \<Rightarrow> bool" where
  "rows_fit headers rows = list_all (\<lambda>row. length row \<le> length headers) rows"

text \<open>Padding on the left, as the words ``left-pad'' say.\<close>

definition left_pad :: "ustr \<Rightarrow> nat \<Rightarrow> ustr" where
  "left_pad s w = replicate (w - length s) 32 @ s"

text \<open>A cell that \<^verbatim>\<open>latin-1\<close> can encode: \<^verbatim>\<open>None\<close>, or a string of code points below 256.\<close>

definition cell_latin1 :: "ustr option \<Rightarrow> bool" where
  "cell_latin1 v = (case v of None \<Rightarrow> True | Some s \<Rightarrow> latin1 s)"

text \<open>The table of the column-width example.\<close>

definition names_headers :: "ustr list" where
  "names_headers = [lit ''ID'', lit ''Name'']"

definition names_rows :: "ustr option list list" where
  "names_rows = [[Some (lit ''1''), Some (lit ''Alice'')],
                 [Some (lit ''2''), Some (lit ''Bob and a very long name'')]]"

text \<open>The table of the events view (\<^verbatim>\<open>Services/export_data.py\<close>) with the row of one event that
  has no callers.\<close>

definition events_headers :: "ustr list" where
  "events_headers = [lit ''ID'', lit ''Room'', lit ''Callers/Cuers'', lit ''Start'', lit ''End'',
                     lit ''Dance Types'']"

definition event_without_callers :: "ustr option list" where
  "event_without_callers =
     [Some (lit ''1''), Some (lit ''Hall''), Some (callers_cell []),
      Some (lit ''2025-01-01 10:00''), Some (lit ''2025-01-01 11:00''), Some (lit ''Waltz'')]"


section \<open>Basic facts about the Python values\<close>

lemma latin1_append [simp]: "latin1 (a @ b) = (latin1 a \<and> latin1 b)"
  by (simp add: latin1_def)

lemma latin1_Nil [simp]: "latin1 []"
  by (simp add: latin1_def)

lemma latin1_Cons [simp]: "latin1 (c # s) = (c < 256 \<and> latin1 s)"
  by (simp add: latin1_def)

lemma latin1_lit [simp]: "latin1 (lit s)"
  by (induction s) (simp_all add: lit_def)

lemma latin1_replicate [simp]: "latin1 (replicate n c) = (n = 0 \<or> c < 256)"
  by (induction n) auto

lemma encode_latin1_ok [simp]: "latin1 s \<Longrightarrow> encode_latin1 s = Inr s"
  by (simp add: encode_latin1_def)

lemma encode_latin1_bad [simp]: "\<not> latin1 s \<Longrightarrow> encode_latin1 s = Inl UnicodeEncodeError"
  by (simp add: encode_latin1_def)

lemma str_nat_digits: "list_all is_digit (str_nat n)"
proof (induction n rule: str_nat.induct)
  case (1 n)
  show ?case
  proof (cases "n < 10")
    case True
    then show ?thesis by (simp add: str_nat.simps [of n] is_digit_def)
  next
    case False
    have "n mod 10 < 10" by simp
    then have "is_digit (48 + n mod 10)" unfolding is_digit_def by linarith
    with False 1 show ?thesis by (simp add: str_nat.simps [of n])
  qed
qed

lemma is_digit_latin1: "list_all is_digit s \<Longrightarrow> latin1 s"
  by (induction s) (auto simp: is_digit_def)

lemma latin1_str_nat [simp]: "latin1 (str_nat n)"
  by (rule is_digit_latin1 [OF str_nat_digits])

lemma latin1_str_int [simp]: "latin1 (str_int i)"
  by (simp add: str_int_def)

lemma str_nat_nonempty [simp]: "str_nat n \<noteq> []"
  by (subst str_nat.simps) simp

lemma parse_nat_append: "parse_nat (ds @ [c]) = 10 * parse_nat ds + (c - 48)"
  by (simp add: parse_nat_def)

lemma parse_str_nat: "parse_nat (str_nat n) = n"
proof (induction n rule: str_nat.induct)
  case (1 n)
  show ?case
  proof (cases "n < 10")
    case True
    then show ?thesis by (simp add: str_nat.simps [of n] parse_nat_def)
  next
    case False
    with 1 show ?thesis by (simp add: str_nat.simps [of n] parse_nat_append)
  qed
qed

lemma length_str_nat_le: "n < 10 ^ k \<Longrightarrow> 0 < k \<Longrightarrow> length (str_nat n) \<le> k"
proof (induction k arbitrary: n)
  case 0
  then show ?case by simp
next
  case (Suc k)
  show ?case
  proof (cases "n < 10")
    case True
    then show ?thesis by (simp add: str_nat.simps [of n])
  next
    case False
    with Suc.prems have k: "0 < k" by (cases k) auto
    from Suc.prems have "n div 10 < 10 ^ k" by (simp add: less_mult_imp_div_less mult.commute)
    from Suc.IH [OF this k] False show ?thesis by (simp add: str_nat.simps [of n])
  qed
qed

lemma length_str_nat_gt: "10 ^ k \<le> n \<Longrightarrow> k < length (str_nat n)"
proof (induction k arbitrary: n)
  case 0
  then show ?case by (cases "str_nat n") simp_all
next
  case (Suc k)
  then have ge: "\<not> n < 10" by (cases k) (auto simp: not_less intro: order_trans [rotated])
  from Suc.prems have "10 ^ k \<le> n div 10" by (simp add: less_eq_div_iff_mult_less_eq mult.commute)
  from Suc.IH [OF this] ge show ?case by (simp add: str_nat.simps [of n])
qed

lemma length_format_010d: "n < 10 ^ 10 \<Longrightarrow> length (format_010d n) = 10"
  using length_str_nat_le [of n 10] by (simp add: format_010d_def)

lemma format_010d_big: "10 ^ 10 \<le> n \<Longrightarrow> format_010d n = str_nat n"
  using length_str_nat_gt [of 10 n] by (simp add: format_010d_def)

section \<open>Escaping\<close>

lemma replace_char_append: "replace_char c r (a @ b) = replace_char c r a @ replace_char c r b"
  by (simp add: replace_char_def)

lemma escape_append: "escape (a @ b) = escape a @ escape b"
  by (simp add: escape_def replace_char_append)

lemma escape_Nil: "escape [] = []"
  by (simp add: escape_def replace_char_def)

lemma escape_Cons: "escape (c # s) = escaped_char c @ escape s"
proof -
  have "escape [c] = escaped_char c"
    by (simp add: escape_def replace_char_def escaped_char_def)
  with escape_append [of "[c]" s] show ?thesis by simp
qed

lemma escape_chars: "escape v = concat (map escaped_char v)"
  by (induction v) (simp_all add: escape_Nil escape_Cons)

lemma escape_example:
  "escape (lit ''Name (Jr.)'' @ [92]) = lit ''Name '' @ [92] @ lit ''(Jr.'' @ [92] @ lit '')'' @ [92, 92]"
  by code_simp

text \<open>
  C6. \<^verbatim>\<open>_escape\<close> replaces the backslash by two backslashes first, then \<open>(\<close> by backslash
  \<open>(\<close>, then \<open>)\<close> by backslash \<open>)\<close>. In that order no backslash is escaped twice: every
  character is replaced by its own escape. A text that contains the cell \<^verbatim>\<open>Name (Jr.)\\<close>
  therefore shows it in its text command as \<^verbatim>\<open>Name \\(Jr.\\)\\\\<close>, whatever stands before and
  after it on the line.
\<close>

theorem escape_backslash_first:
  "escape v = replace_char 41 [92, 41] (replace_char 40 [92, 40] (replace_char 92 [92, 92] v))
   \<and> escape v = concat (map escaped_char v)
   \<and> text_command sz y (pre @ (lit ''Name (Jr.)'' @ [92]) @ post) =
       lit ''BT /F1 '' @ str_int sz @ lit '' Tf '' @ str_int MARGIN @ lit '' '' @ str_int y
         @ lit '' Td ('' @ escape pre
         @ (lit ''Name '' @ [92] @ lit ''(Jr.'' @ [92] @ lit '')'' @ [92, 92])
         @ escape post @ lit '') Tj ET''
   \<and> build_content_stream [(lit ''Name (Jr.)'' @ [92], 10)] =
       lit ''BT /F1 10 Tf 40 742 Td (Name '' @ [92] @ lit ''(Jr.'' @ [92] @ lit '')'' @ [92, 92]
         @ lit '') Tj ET''"
proof (intro conjI)
  show "escape v = replace_char 41 [92, 41] (replace_char 40 [92, 40] (replace_char 92 [92, 92] v))"
    by (simp add: escape_def)
  show "escape v = concat (map escaped_char v)"
    by (rule escape_chars)
  show "text_command sz y (pre @ (lit ''Name (Jr.)'' @ [92]) @ post) =
       lit ''BT /F1 '' @ str_int sz @ lit '' Tf '' @ str_int MARGIN @ lit '' '' @ str_int y
         @ lit '' Td ('' @ escape pre
         @ (lit ''Name '' @ [92] @ lit ''(Jr.'' @ [92] @ lit '')'' @ [92, 92])
         @ escape post @ lit '') Tj ET''"
  proof -
    define cell where "cell = lit ''Name (Jr.)'' @ [92]"
    have "escape (pre @ cell @ post) = escape pre @ escape cell @ escape post"
      by (simp only: escape_append)
    then show ?thesis
      unfolding text_command_def cell_def escape_example by simp
  qed
  show "build_content_stream [(lit ''Name (Jr.)'' @ [92], 10)] =
       lit ''BT /F1 10 Tf 40 742 Td (Name '' @ [92] @ lit ''(Jr.'' @ [92] @ lit '')'' @ [92, 92]
         @ lit '') Tj ET''"
    by code_simp
qed

section \<open>Pagination\<close>

lemma page_cost_simps [simp]:
  "page_cost [] = 0" "page_cost (p @ q) = page_cost p + page_cost q"
  "page_cost [it] = item_step it"
  by (simp_all add: page_cost_def)

lemma page_fits_iff:
  "page_fits p \<longleftrightarrow> (\<forall>k. 2 \<le> k \<and> k \<le> length p \<longrightarrow> page_cost (take k p) \<le> usable_height)"
  by (auto simp: page_fits_def list_all_iff)

lemma page_fits_short: "length p \<le> 1 \<Longrightarrow> page_fits p"
  by (simp add: page_fits_iff)

lemma page_fits_snoc:
  assumes "page_fits p" and "p = [] \<or> page_cost p + item_step it \<le> usable_height"
  shows "page_fits (p @ [it])"
  unfolding page_fits_iff
proof (intro allI impI)
  fix k assume k: "2 \<le> k \<and> k \<le> length (p @ [it])"
  show "page_cost (take k (p @ [it])) \<le> usable_height"
  proof (cases "k \<le> length p")
    case True
    with k assms(1) show ?thesis by (simp add: page_fits_iff)
  next
    case False
    with k have "k = Suc (length p)" by simp
    moreover from this k have "p \<noteq> []" by auto
    ultimately show ?thesis using assms(2) by simp
  qed
qed

lemma greedy_breaks_close:
  "greedy_breaks (ps @ [p]) \<Longrightarrow> page_cost p + item_step it > usable_height
     \<Longrightarrow> greedy_breaks (ps @ [p, [it]])"
  by (induction ps rule: greedy_breaks.induct) (auto split: list.splits)

lemma greedy_breaks_extend:
  "greedy_breaks (ps @ [p]) \<Longrightarrow> p \<noteq> [] \<or> ps = [] \<Longrightarrow> greedy_breaks (ps @ [p @ [it]])"
proof (induction ps)
  case Nil
  then show ?case by simp
next
  case (Cons a ps)
  show ?case
  proof (cases ps)
    case Nil
    with Cons.prems show ?thesis by (cases p) (auto split: list.splits)
  next
    case tail: (Cons b bs)
    with Cons.prems Cons.IH show ?thesis by (auto split: list.splits)
  qed
qed

lemma paginate_loop_inv:
  assumes "paginate_loop items pages current used = (pages', current')"
    and "used = page_cost current"
    and "current \<noteq> [] \<or> pages = []"
    and "greedy_breaks (pages @ [current])"
    and "list_all page_fits (pages @ [current])"
    and "list_all (\<lambda>p. p \<noteq> []) pages"
  shows "concat pages' @ current' = concat pages @ current @ items
     \<and> (current' \<noteq> [] \<or> (pages' = [] \<and> items = []))
     \<and> greedy_breaks (pages' @ [current'])
     \<and> list_all page_fits (pages' @ [current'])
     \<and> list_all (\<lambda>p. p \<noteq> []) pages'"
  using assms
proof (induction items arbitrary: pages current used)
  case Nil
  then show ?case by auto
next
  case (Cons it items)
  obtain tx sz where it_eq: "it = (tx, sz)" by (cases it)
  show ?case
  proof (cases "current \<noteq> [] \<and> used + (sz + 4) > usable_height")
    case True
    with Cons.prems(1) it_eq
    have run: "paginate_loop items (pages @ [current]) [it] (sz + 4) = (pages', current')"
      by simp
    have g: "greedy_breaks ((pages @ [current]) @ [[it]])"
      using greedy_breaks_close [of pages current it] Cons.prems(2,4) True it_eq
      by (simp add: item_step_def)
    have f: "list_all page_fits ((pages @ [current]) @ [[it]])"
      using Cons.prems(5) by (simp add: page_fits_short)
    have n: "list_all (\<lambda>p. p \<noteq> []) (pages @ [current])"
      using Cons.prems(6) True by simp
    from Cons.IH [OF run _ _ g f n] it_eq show ?thesis
      by (auto simp: item_step_def)
  next
    case False
    with Cons.prems(1) it_eq
    have run: "paginate_loop items pages (current @ [it]) (used + (sz + 4)) = (pages', current')"
      by auto
    have u: "used + (sz + 4) = page_cost (current @ [it])"
      using Cons.prems(2) it_eq by (simp add: item_step_def)
    have g: "greedy_breaks (pages @ [current @ [it]])"
      using greedy_breaks_extend [of pages current it] Cons.prems(3,4) by blast
    have "page_fits (current @ [it])"
      using page_fits_snoc [of current it] Cons.prems(2,5) False it_eq
      by (auto simp: item_step_def)
    then have f: "list_all page_fits (pages @ [current @ [it]])"
      using Cons.prems(5) by simp
    from Cons.IH [OF run u _ g f Cons.prems(6)] show ?thesis by auto
  qed
qed

lemma paginate_props:
  "(items \<noteq> [] \<longrightarrow> concat (paginate items) = items)
   \<and> list_all (\<lambda>p. p \<noteq> [] \<and> page_fits p) (paginate items)
   \<and> greedy_breaks (paginate items)"
proof -
  obtain pages current where run: "paginate_loop items [] [] 0 = (pages, current)"
    by (cases "paginate_loop items [] [] 0")
  from paginate_loop_inv [OF run]
  have inv: "concat pages @ current = items"
    "current \<noteq> [] \<or> (pages = [] \<and> items = [])"
    "greedy_breaks (pages @ [current])"
    "list_all page_fits (pages @ [current])"
    "list_all (\<lambda>p. p \<noteq> []) pages"
    by (simp_all add: page_fits_short)
  show ?thesis
  proof (cases "current = []")
    case True
    with inv show ?thesis by (simp add: paginate_def run page_fits_short)
  next
    case False
    with inv show ?thesis by (simp add: paginate_def run list_all_iff)
  qed
qed

lemma paginate_thirty: "paginate (numbered_items 1 31) = [numbered_items 1 31]"
  by code_simp

lemma paginate_sixty: "paginate (numbered_items 1 61) = [numbered_items 1 51, numbered_items 51 61]"
  by code_simp

text \<open>
  C5. The usable height is 792 - 2 * 40 = 712. Thirty items of size 10 stay on one page; sixty
  of them make two pages, the second starting with the 51st item. For every list of items the
  pass loses and reorders nothing, produces no empty page, keeps on a page every item after its
  first only while the running cost stays within the usable height, and starts a new page only
  with an item that would have pushed the page before it beyond the usable height.
\<close>

theorem paginate_greedy:
  "usable_height = 712
   \<and> paginate (numbered_items 1 31) = [numbered_items 1 31]
   \<and> paginate (numbered_items 1 61) = [numbered_items 1 51, numbered_items 51 61]
   \<and> (items \<noteq> [] \<longrightarrow> concat (paginate items) = items)
   \<and> list_all (\<lambda>p. p \<noteq> [] \<and> page_fits p) (paginate items)
   \<and> greedy_breaks (paginate items)"
  using paginate_props [of items] paginate_thirty paginate_sixty
  by (simp add: usable_height_def PAGE_HEIGHT_def MARGIN_def)

text \<open>The general part at the sixty items.\<close>

theorem paginate_greedy_witness:
  "numbered_items 1 61 \<noteq> []
   \<and> concat (paginate (numbered_items 1 61)) = numbered_items 1 61
   \<and> list_all (\<lambda>p. p \<noteq> [] \<and> page_fits p) (paginate (numbered_items 1 61))
   \<and> greedy_breaks (paginate (numbered_items 1 61))"
proof -
  have ne: "numbered_items 1 61 \<noteq> []" by code_simp
  from paginate_greedy [of "numbered_items 1 61"] ne show ?thesis by blast
qed

section \<open>The object table built by \<^verbatim>\<open>render_pdf\<close>\<close>

lemma pages_loop_eq:
  "pages_loop pages objects page_refs =
     (objects @ page_slots pages, page_refs @ page_ids (length objects) pages)"
proof (induction pages arbitrary: objects page_refs)
  case Nil
  then show ?case by simp
next
  case (Cons page pages)
  show ?case
    by (simp add: add_object_def Cons.IH)
qed

lemma length_page_slots [simp]: "length (page_slots pages) = 2 * length pages"
  by (induction pages) simp_all

lemma length_page_objects [simp]: "length (page_objects parent font n pages) = 2 * length pages"
  by (induction pages arbitrary: n) simp_all

lemma page_ids_eq:
  "page_ids n pages = map (\<lambda>k. (n + 2 * k + 1, n + 2 * k)) [0..<length pages]"
proof (induction pages arbitrary: n)
  case Nil
  then show ?case by simp
next
  case (Cons page pages)
  have "map (\<lambda>k. (n + 2 * k + 1, n + 2 * k)) [0..<Suc (length pages)] =
        (n + 1, n) # map (\<lambda>k. (n + 2 + 2 * k + 1, n + 2 + 2 * k)) [0..<length pages]"
    by (simp add: map_upt_Suc del: upt_Suc)
  with Cons.IH [of "n + 2"] show ?case by simp
qed

lemma fill_pages_eq:
  "length pre = n \<Longrightarrow>
   fill_pages (page_ids n pages) pages_id font_id (pre @ page_slots pages @ post) =
     Inr (pre @ page_objects pages_id font_id n pages @ post)"
proof (induction pages arbitrary: pre n)
  case Nil
  then show ?case by simp
next
  case (Cons page pages)
  let ?c = "Some (content_body (build_content_stream page))"
  let ?v = "Some (page_body pages_id n font_id)"
  have upd: "(pre @ ?c # None # page_slots pages @ post)[n + 1 := ?v] =
             (pre @ [?c, ?v]) @ page_slots pages @ post"
    using Cons.prems by (simp add: list_update_append)
  have len: "length (pre @ [?c, ?v]) = n + 2"
    using Cons.prems by simp
  from Cons.IH [OF len] upd Cons.prems show ?case
    by (simp add: set_item_def)
qed

lemma render_objects_eq:
  "render_objects pages = Inr (expected_objects pages, 2 * length pages + 3)"
proof -
  define P where "P = length pages"
  define O2 where "O2 = [None, Some font_body] @ page_slots pages"
  define E2 where "E2 = [None, Some font_body] @ page_objects (2 * P + 2) 1 2 pages"
  define pb where "pb = Some (pages_body (length (page_ids 2 pages))
     (join (lit '' '') (map (\<lambda>(page_id, _). str_nat page_id @ lit '' 0 R'') (page_ids 2 pages))))"
  have lenO2: "length O2 = 2 * P + 2"
    by (simp add: O2_def P_def)
  have lenE2: "length E2 = 2 * P + 2"
    by (simp add: E2_def P_def)
  have a1: "add_object [None] (Some font_body) = ([None, Some font_body], 1)"
    by (simp add: add_object_def)
  have a2: "pages_loop pages [None, Some font_body] [] = (O2, page_ids 2 pages)"
    by (simp add: pages_loop_eq O2_def numeral_2_eq_2)
  have a3: "add_object O2 None = (O2 @ [None], 2 * P + 2)"
    by (simp add: add_object_def lenO2)
  have a4: "add_object (O2 @ [None]) None = (O2 @ [None, None], 2 * P + 3)"
    by (simp add: add_object_def lenO2)
  have s1: "set_item (O2 @ [None, None]) (2 * P + 2) pb = Inr (O2 @ [pb, None])"
    by (simp add: set_item_def lenO2 list_update_append)
  have f: "fill_pages (page_ids 2 pages) (2 * P + 2) 1 (O2 @ [pb, None]) = Inr (E2 @ [pb, None])"
    using fill_pages_eq [of "[None, Some font_body]" 2 pages "2 * P + 2" 1 "[pb, None]"]
    by (simp add: O2_def E2_def)
  have s2: "set_item (E2 @ [pb, None]) (2 * P + 3) c = Inr (E2 @ [pb, c])" for c
    by (simp add: set_item_def lenE2 list_update_append)
  have run: "render_objects pages = Inr (E2 @ [pb, Some (catalog_body (2 * P + 2))], 2 * P + 3)"
    unfolding render_objects_def
    by (simp only: Let_def a1 a2 a3 a4 prod.case pb_def [symmetric] s1 f s2 sum.case)
  have ids: "page_ids 2 pages = map (\<lambda>k. (2 * k + 3, 2 * k + 2)) [0..<P]"
    unfolding page_ids_eq P_def by (rule map_cong) simp_all
  have pb_eq: "pb = Some (pages_body P (kids_text (map (\<lambda>k. 2 * k + 3) [0..<P])))"
    unfolding pb_def ids by (simp add: kids_text_def o_def)
  show ?thesis
    unfolding run pb_eq by (simp add: expected_objects_def E2_def P_def Let_def)
qed

section \<open>The bytes written by \<^verbatim>\<open>_build_pdf_bytes\<close>\<close>

lemma latin1_join: "latin1 sep \<Longrightarrow> latin1 (join sep xs) = list_all latin1 xs"
  by (induction sep xs rule: join.induct) auto

lemma latin1_replace_char:
  "latin1 r \<Longrightarrow> c < 256 \<Longrightarrow> latin1 (replace_char c r s) = latin1 s"
  by (induction s) (auto simp: replace_char_def)

lemma latin1_escape [simp]: "latin1 (escape s) = latin1 s"
  by (simp add: escape_def latin1_replace_char)

lemma latin1_text_command [simp]: "latin1 (text_command sz y t) = latin1 t"
  by (simp add: text_command_def)

lemma content_loop_latin1:
  "list_all latin1 (content_loop items y commands) =
     (list_all latin1 commands \<and> list_all (\<lambda>it. latin1 (fst it)) items)"
  by (induction items y commands rule: content_loop.induct) (auto simp: Let_def)

lemma latin1_build_content_stream:
  "latin1 (build_content_stream items) = list_all (\<lambda>it. latin1 (fst it)) items"
  by (simp add: build_content_stream_def latin1_join content_loop_latin1)

lemma latin1_content_body [simp]: "latin1 (content_body s) = latin1 s"
  by (simp add: content_body_def)

lemma latin1_page_body [simp]: "latin1 (page_body a b c)"
  by (simp add: page_body_def)

lemma latin1_font_body [simp]: "latin1 font_body"
  by (simp add: font_body_def)

lemma latin1_catalog_body [simp]: "latin1 (catalog_body a)"
  by (simp add: catalog_body_def)

lemma latin1_kids_text [simp]: "latin1 (kids_text ids)"
  by (simp add: kids_text_def latin1_join list_all_iff)

lemma latin1_pages_body [simp]: "latin1 (pages_body n (kids_text ids))"
  by (simp add: pages_body_def)

lemma latin1_format_010d [simp]: "latin1 (format_010d n)"
  by (simp add: format_010d_def)

lemma latin1_trailer_text [simp]: "latin1 (trailer_text a b c)"
  by (simp add: trailer_text_def)

lemma latin1_xref_head [simp]: "latin1 (xref_head n)"
  by (simp add: xref_head_def)

lemma body_of_simps [simp]: "body_of None = []" "body_of (Some c) = c"
  by (simp_all add: body_of_def)

lemma page_objects_latin1:
  "list_all (\<lambda>c. latin1 (body_of c)) (page_objects parent font n pages) = page_texts_latin1 pages"
  by (induction pages arbitrary: n)
     (simp_all add: page_texts_latin1_def latin1_build_content_stream)

lemma expected_objects_latin1:
  "list_all (\<lambda>c. latin1 (body_of c)) (drop 1 (expected_objects pages)) = page_texts_latin1 pages"
  by (simp add: expected_objects_def Let_def page_objects_latin1)

lemma objects_loop_step:
  "latin1 (body_of content) \<Longrightarrow>
   objects_loop (content # rest) i offsets out =
     objects_loop rest (i + 1) (offsets @ [length out]) (out @ object_bytes i content)"
  by (auto simp: body_of_def object_bytes_def Let_def)

lemma objects_loop_ok:
  "list_all (\<lambda>c. latin1 (body_of c)) objs \<Longrightarrow>
   objects_loop objs i offsets out =
     Inr (offsets @ object_offsets (length out) objs i, out @ objects_bytes objs i)"
proof (induction objs arbitrary: i offsets out)
  case Nil
  then show ?case by simp
next
  case (Cons content rest)
  from Cons.prems have c: "latin1 (body_of content)" and r: "list_all (\<lambda>c. latin1 (body_of c)) rest"
    by simp_all
  show ?case
    unfolding objects_loop_step [OF c] Cons.IH [OF r] by simp
qed

lemma objects_loop_bad:
  "\<not> list_all (\<lambda>c. latin1 (body_of c)) objs \<Longrightarrow>
   objects_loop objs i offsets out = Inl UnicodeEncodeError"
proof (induction objs arbitrary: i offsets out)
  case Nil
  then show ?case by simp
next
  case (Cons content rest)
  show ?case
  proof (cases "latin1 (body_of content)")
    case True
    with Cons.prems have "\<not> list_all (\<lambda>c. latin1 (body_of c)) rest" by simp
    from Cons.IH [OF this] show ?thesis
      unfolding objects_loop_step [OF True] .
  next
    case False
    then show ?thesis by (simp add: body_of_def Let_def)
  qed
qed

lemma xref_loop_eq: "xref_loop offsets out = Inr (out @ concat (map xref_entry_text offsets))"
  by (induction offsets arbitrary: out) (simp_all add: xref_entry_text_def)

lemma length_pdf_header: "length (lit ''%PDF-1.4\<newline>'') = 9"
  by (simp add: lit_def)

lemma build_pdf_bytes_eq:
  "build_pdf_bytes objects catalog_id =
     (if list_all (\<lambda>c. latin1 (body_of c)) (drop 1 objects)
      then Inr (pdf_bytes objects catalog_id) else Inl UnicodeEncodeError)"
proof (cases "list_all (\<lambda>c. latin1 (body_of c)) (drop 1 objects)")
  case True
  from objects_loop_ok [OF True, of 1 "[]" "lit ''%PDF-1.4\<newline>''"] True show ?thesis
    by (simp add: build_pdf_bytes_def pdf_bytes_def Let_def xref_loop_eq length_pdf_header
        xref_head_def [symmetric] free_entry_def [symmetric])
next
  case False
  from objects_loop_bad [OF False] False show ?thesis
    by (simp add: build_pdf_bytes_def)
qed

lemma render_pdf_eq:
  "render_pdf pages =
     (if page_texts_latin1 pages
      then Inr (pdf_bytes (expected_objects pages) (2 * length pages + 3))
      else Inl UnicodeEncodeError)"
  unfolding render_pdf_def render_objects_eq
  by (simp only: sum.case prod.case build_pdf_bytes_eq expected_objects_latin1)

section \<open>Reading the cross-reference table\<close>

lemma begins_at_append: "length a = pos \<Longrightarrow> begins_at (a @ s @ r) pos s"
  by (simp add: begins_at_def bytes_at_def)

lemma bytes_at_append: "length a = pos \<Longrightarrow> bytes_at (a @ r) (pos + k) n = bytes_at r k n"
  by (simp add: bytes_at_def)

lemma ends_with_append: "ends_with (a @ s) s"
  by (simp add: ends_with_def)

lemma parse_nat_zeros: "parse_nat (replicate k 48 @ ds) = parse_nat ds"
  by (induction k) (simp_all add: parse_nat_def)

lemma parse_format_010d: "parse_nat (format_010d n) = n"
  by (simp add: format_010d_def parse_nat_zeros parse_str_nat)

lemma format_010d_digits: "list_all is_digit (format_010d n)"
  using str_nat_digits [of n] by (auto simp: format_010d_def is_digit_def list_all_iff)

lemma takeWhile_digits:
  "list_all is_digit ds \<Longrightarrow> \<not> is_digit c \<Longrightarrow> takeWhile is_digit (ds @ c # r) = ds"
  by (induction ds) simp_all

lemma read_startxref_eq:
  "read_startxref (a @ lit ''startxref\<newline>'' @ str_nat x @ lit ''\<newline>%%EOF'') = x"
proof -
  have r: "rev (lit ''\<newline>%%EOF'') = lit ''FOE%%\<newline>''" and l: "length (lit ''FOE%%\<newline>'') = 6"
    by (simp_all add: lit_def)
  have s: "rev (lit ''startxref\<newline>'') = 10 # rev (lit ''startxref'')"
    by (simp add: lit_def)
  have d: "list_all is_digit (rev (str_nat x))"
    using str_nat_digits [of x] by (simp add: list_all_iff)
  have "takeWhile is_digit (rev (str_nat x) @ 10 # rev (lit ''startxref'') @ rev a) = rev (str_nat x)"
    by (rule takeWhile_digits [OF d]) (simp add: is_digit_def)
  then show ?thesis
    by (simp add: read_startxref_def r l s parse_str_nat)
qed

lemma read_startxref_pdf_bytes:
  "read_startxref (pdf_bytes objects catalog_id) =
     length (lit ''%PDF-1.4\<newline>'' @ objects_bytes (drop 1 objects) 1)"
proof -
  define body where "body = lit ''%PDF-1.4\<newline>'' @ objects_bytes (drop 1 objects) 1"
  define a where "a = body @ xref_head (length objects) @ free_entry
        @ concat (map xref_entry_text (object_offsets 9 (drop 1 objects) 1))
        @ lit ''trailer\<newline><< /Size '' @ str_nat (length objects) @ lit '' /Root ''
        @ str_nat catalog_id @ lit '' 0 R >>\<newline>''"
  have split: "lit ''trailer\<newline><< /Size '' @ str_nat tot @ lit '' /Root '' @ str_nat c
       @ lit '' 0 R >>\<newline>startxref\<newline>'' @ t =
     (lit ''trailer\<newline><< /Size '' @ str_nat tot @ lit '' /Root '' @ str_nat c
       @ lit '' 0 R >>\<newline>'') @ lit ''startxref\<newline>'' @ t" for tot c t
    by (simp add: lit_def)
  have "pdf_bytes objects catalog_id =
        a @ lit ''startxref\<newline>'' @ str_nat (length body) @ lit ''\<newline>%%EOF''"
    unfolding pdf_bytes_def Let_def trailer_text_def body_def [symmetric] a_def split by simp
  then show ?thesis
    by (simp only: read_startxref_eq body_def)
qed

lemma blocks_nth:
  "list_all (\<lambda>e. length e = n) es \<Longrightarrow> k < length es \<Longrightarrow>
   take n (drop (n * k) (concat es @ r)) = es ! k"
proof (induction es arbitrary: k)
  case Nil
  then show ?case by simp
next
  case (Cons e es)
  show ?case
  proof (cases k)
    case 0
    with Cons.prems show ?thesis by simp
  next
    case (Suc j)
    with Cons.prems have "take n (drop (n * j) (concat es @ r)) = es ! j" 
      by (intro Cons.IH) simp_all
    with Suc Cons.prems show ?thesis by (simp add: add.commute)
  qed
qed

lemma object_offsets_nth:
  "k < length objs \<Longrightarrow>
   object_offsets pos objs i ! k = pos + length (objects_bytes (take k objs) i)"
proof (induction objs arbitrary: pos i k)
  case Nil
  then show ?case by simp
next
  case (Cons c objs)
  show ?case
  proof (cases k)
    case 0
    then show ?thesis by simp
  next
    case (Suc j)
    with Cons.prems Cons.IH [of j "pos + length (object_bytes i c)" "i + 1"] show ?thesis
      by simp
  qed
qed

lemma length_object_offsets [simp]: "length (object_offsets pos objs i) = length objs"
  by (induction objs arbitrary: pos i) simp_all

lemma objects_bytes_split:
  "k < length objs \<Longrightarrow>
   objects_bytes objs i =
     objects_bytes (take k objs) i @ object_bytes (i + k) (objs ! k)
       @ objects_bytes (drop (Suc k) objs) (i + k + 1)"
proof (induction objs arbitrary: i k)
  case Nil
  then show ?case by simp
next
  case (Cons c objs)
  show ?case
  proof (cases k)
    case 0
    then show ?thesis by simp
  next
    case (Suc j)
    with Cons.prems Cons.IH [of j "i + 1"] show ?thesis by simp
  qed
qed

lemma object_offsets_bound:
  "k < length objs \<Longrightarrow> object_offsets pos objs i ! k \<le> pos + length (objects_bytes objs i)"
  using objects_bytes_split [of k objs i] by (simp add: object_offsets_nth)

lemma object_header_at:
  assumes "k < length objs" and "length pre = pos"
  shows "begins_at (pre @ objects_bytes objs i @ r) (object_offsets pos objs i ! k)
           (str_nat (i + k) @ lit '' 0 obj'')"
proof -
  define a where "a = pre @ objects_bytes (take k objs) i"
  obtain rest where ob: "object_bytes (i + k) (objs ! k) = (str_nat (i + k) @ lit '' 0 obj'') @ rest"
    by (simp add: object_bytes_def Let_def lit_def)
  have eq: "pre @ objects_bytes objs i @ r =
        a @ (str_nat (i + k) @ lit '' 0 obj'') @ (rest @ objects_bytes (drop (Suc k) objs) (i + k + 1) @ r)"
    using objects_bytes_split [OF assms(1), of i] by (simp add: a_def ob)
  have len: "length a = object_offsets pos objs i ! k"
    using assms by (simp add: a_def object_offsets_nth)
  show ?thesis
    unfolding eq by (rule begins_at_append [OF len])
qed

lemma pdf_bytes_shape:
  "pdf_bytes objects catalog_id =
     (lit ''%PDF-1.4\<newline>'' @ objects_bytes (drop 1 objects) 1) @ xref_head (length objects)
       @ concat (free_entry # map xref_entry_text (object_offsets 9 (drop 1 objects) 1))
       @ trailer_text (length objects) catalog_id
           (length (lit ''%PDF-1.4\<newline>'' @ objects_bytes (drop 1 objects) 1))"
  by (simp add: pdf_bytes_def Let_def)

lemma trailer_text_tail:
  "\<exists>a. trailer_text tot c x = a @ lit ''startxref\<newline>'' @ str_nat x @ lit ''\<newline>%%EOF''"
proof -
  have "trailer_text tot c x =
     (lit ''trailer\<newline><< /Size '' @ str_nat tot @ lit '' /Root '' @ str_nat c
       @ lit '' 0 R >>\<newline>'') @ lit ''startxref\<newline>'' @ str_nat x @ lit ''\<newline>%%EOF''"
    by (simp add: trailer_text_def lit_def)
  then show ?thesis by blast
qed

lemma length_free_entry [simp]: "length free_entry = 20"
  by (simp add: free_entry_def lit_def)

lemma length_xref_entry_text: "n < 10 ^ 10 \<Longrightarrow> length (xref_entry_text n) = 20"
  by (simp add: xref_entry_text_def length_format_010d lit_def)

lemma xref_ok_pdf_bytes:
  assumes short: "length (pdf_bytes objects catalog_id) < 10 ^ 10"
    and tot: "length objects = N + 1"
  shows "xref_ok (pdf_bytes objects catalog_id) N"
proof -
  define hdr where "hdr = lit ''%PDF-1.4\<newline>''"
  define objs where "objs = drop 1 objects"
  define body where "body = hdr @ objects_bytes objs 1"
  define offs where "offs = object_offsets 9 objs 1"
  define es where "es = free_entry # map xref_entry_text offs"
  define tr where "tr = trailer_text (N + 1) catalog_id (length body)"
  define out where "out = pdf_bytes objects catalog_id"
  have out_eq: "out = body @ xref_head (N + 1) @ concat es @ tr"
    unfolding out_def pdf_bytes_shape body_def hdr_def objs_def offs_def es_def tr_def tot ..
  have len_objs: "length objs = N"
    by (simp add: objs_def tot)
  have len_hdr: "length hdr = 9"
    by (simp add: hdr_def lit_def)
  obtain a where tail: "tr = a @ lit ''startxref\<newline>'' @ str_nat (length body) @ lit ''\<newline>%%EOF''"
    unfolding tr_def using trailer_text_tail by blast
  have out_tail: "out = (body @ xref_head (N + 1) @ concat es @ a)
                    @ lit ''startxref\<newline>'' @ str_nat (length body) @ lit ''\<newline>%%EOF''"
    by (simp add: out_eq tail)
  have x: "read_startxref out = length body"
    unfolding out_tail by (simp only: read_startxref_eq)
  have e1: "ends_with out (lit ''startxref\<newline>'' @ str_nat (length body) @ lit ''\<newline>%%EOF'')"
    unfolding out_tail by (rule ends_with_append)
  have e2: "begins_at out (length body) (xref_head (N + 1))"
    unfolding out_eq by (rule begins_at_append) simp
  have off_small: "offs ! k < 10 ^ 10" if "k < N" for k
  proof -
    have "offs ! k \<le> 9 + length (objects_bytes objs 1)"
      unfolding offs_def using that len_objs by (intro object_offsets_bound) simp
    also have "\<dots> = length body"
      by (simp add: body_def len_hdr)
    also have "\<dots> \<le> length out"
      by (simp add: out_eq)
    finally show ?thesis using short by (simp add: out_def)
  qed
  have len_offs: "length offs = N"
    by (simp add: offs_def len_objs)
  have all20: "list_all (\<lambda>e. length e = 20) es"
    unfolding es_def list_all_iff
  proof
    fix e assume "e \<in> set (free_entry # map xref_entry_text offs)"
    then consider "e = free_entry" | k where "k < N" "e = xref_entry_text (offs ! k)"
      using len_offs by (auto simp: in_set_conv_nth)
    then show "length e = 20"
    proof cases
      case 1
      then show ?thesis by simp
    next
      case 2
      then show ?thesis using length_xref_entry_text [OF off_small [of k]] by simp
    qed
  qed
  have entry: "xref_entry out (N + 1) k = es ! k" if "k < length es" for k
  proof -
    have "xref_entry out (N + 1) k =
          bytes_at out (length body + length (xref_head (N + 1)) + 20 * k) 20"
      by (simp only: xref_entry_def x)
    also have "\<dots> = bytes_at (body @ xref_head (N + 1) @ concat es @ tr)
            (length (body @ xref_head (N + 1)) + 20 * k) 20"
      by (simp add: out_eq)
    also have "\<dots> = take 20 (drop (20 * k) (concat es @ tr))"
      using bytes_at_append [of "body @ xref_head (N + 1)" _ "concat es @ tr" "20 * k" 20]
      by (simp add: bytes_at_def)
    also have "\<dots> = es ! k"
      by (rule blocks_nth [OF all20 that])
    finally show ?thesis .
  qed
  have e3: "xref_entry out (N + 1) 0 = free_entry"
    using entry [of 0] by (simp add: es_def)
  have e4: "entry_ok out (N + 1) i" if "i \<in> set [1..<N + 1]" for i
  proof -
    define k where "k = i - 1"
    have k: "i = k + 1" "k < N"
      using that by (auto simp: k_def)
    have ent: "xref_entry out (N + 1) i = format_010d (offs ! k) @ lit '' 00000 n \<newline>''"
      using entry [of i] k len_offs by (simp add: es_def xref_entry_text_def)
    have l10: "length (format_010d (offs ! k)) = 10"
      by (rule length_format_010d [OF off_small [OF k(2)]])
    have hdr_at: "begins_at out (offs ! k) (str_nat i @ lit '' 0 obj'')"
      unfolding out_eq body_def offs_def
      using object_header_at [of k objs hdr 9 1 "xref_head (N + 1) @ concat es @ tr"] k len_objs len_hdr
      by simp
    show ?thesis
      unfolding entry_ok_def Let_def ent
      using l10 hdr_at by (simp add: format_010d_digits parse_format_010d lit_def)
  qed
  show ?thesis
    unfolding xref_ok_def Let_def out_def [symmetric] x
    using e1 e2 e3 e4 by (simp add: list_all_iff)
qed

section \<open>An offset of more than ten digits\<close>

lemma length_concat_blocks:
  "list_all (\<lambda>e. length e = n) es \<Longrightarrow> length (concat es) = n * length es"
  by (induction es) simp_all

lemma entry_broken:
  assumes tot: "length objects = N + 1" and k: "k < N"
    and small: "\<And>j. j < k \<Longrightarrow> object_offsets 9 (drop 1 objects) 1 ! j < 10 ^ 10"
    and big: "10 ^ 10 \<le> object_offsets 9 (drop 1 objects) 1 ! k"
  shows "\<not> entry_ok (pdf_bytes objects catalog_id) (N + 1) (k + 1)"
proof
  define body where "body = lit ''%PDF-1.4\<newline>'' @ objects_bytes (drop 1 objects) 1"
  define offs where "offs = object_offsets 9 (drop 1 objects) 1"
  define es where "es = free_entry # map xref_entry_text offs"
  define tr where "tr = trailer_text (N + 1) catalog_id (length body)"
  define out where "out = pdf_bytes objects catalog_id"
  define e where "e = xref_entry out (N + 1) (k + 1)"
  assume "entry_ok (pdf_bytes objects catalog_id) (N + 1) (k + 1)"
  then have tail: "drop 10 e = lit '' 00000 n \<newline>''"
    by (simp add: entry_ok_def Let_def e_def out_def)
  have len_offs: "length offs = N"
    by (simp add: offs_def tot)
  have out_eq: "out = body @ xref_head (N + 1) @ concat es @ tr"
    unfolding out_def pdf_bytes_shape body_def offs_def es_def tr_def tot ..
  have x: "read_startxref out = length body"
    unfolding out_def body_def by (rule read_startxref_pdf_bytes)
  define front where "front = take (k + 1) es"
  define behind where "behind = drop (k + 2) es"
  have es_split: "es = front @ xref_entry_text (offs ! k) # behind"
    using k len_offs id_take_nth_drop [of "k + 1" es]
    by (simp add: front_def behind_def es_def)
  have front20: "list_all (\<lambda>e. length e = 20) front"
    unfolding list_all_iff
  proof
    fix b assume "b \<in> set front"
    then obtain j where "j < length front" "front ! j = b"
      by (auto simp: in_set_conv_nth)
    then have j: "j < k + 1" "b = es ! j"
      by (simp_all add: front_def)
    show "length b = 20"
    proof (cases j)
      case 0
      with j show ?thesis by (simp add: es_def)
    next
      case (Suc i)
      with j k len_offs have "i < k" "b = xref_entry_text (offs ! i)"
        by (simp_all add: es_def)
      with small [of i] show ?thesis
        by (simp add: length_xref_entry_text offs_def)
    qed
  qed
  have len_front: "length (concat front) = 20 * (k + 1)"
    using length_concat_blocks [OF front20] k len_offs by (simp add: front_def es_def)
  define ds where "ds = str_nat (offs ! k)"
  have ek: "xref_entry_text (offs ! k) = ds @ lit '' 00000 n \<newline>''"
    using big by (simp add: xref_entry_text_def format_010d_big offs_def ds_def)
  have len_ds: "10 < length ds"
    unfolding ds_def using big by (intro length_str_nat_gt) (simp add: offs_def)
  define rest where "rest = lit '' 00000 n \<newline>'' @ concat behind @ tr"
  have "e = bytes_at out (length body + length (xref_head (N + 1)) + 20 * (k + 1)) 20"
    by (simp only: e_def xref_entry_def x)
  also have "\<dots> = bytes_at ((body @ xref_head (N + 1) @ concat front) @ ds @ rest)
                     (length (body @ xref_head (N + 1) @ concat front) + 0) 20"
    by (simp add: out_eq es_split ek rest_def len_front ac_simps)
  also have "\<dots> = take 20 (ds @ rest)"
    by (simp only: bytes_at_append [OF refl]) (simp add: bytes_at_def)
  finally have e_eq: "e = take 20 (ds @ rest)" .
  have "e ! 10 = ds ! 10"
    using len_ds by (simp add: e_eq nth_append)
  moreover have "is_digit (ds ! 10)"
    using str_nat_digits [of "offs ! k"] len_ds by (simp add: ds_def list_all_length)
  moreover have "10 < length e"
    using len_ds by (simp add: e_eq)
  then have "e ! 10 = hd (drop 10 e)"
    by (simp add: hd_drop_conv_nth)
  moreover have "hd (lit '' 00000 n \<newline>'') = 32"
    by (simp add: lit_def)
  ultimately show False
    using tail by (simp add: is_digit_def)
qed

lemma length_escaped_char: "1 \<le> length (escaped_char c)"
  by (simp add: escaped_char_def)

lemma length_escape_ge: "length s \<le> length (escape s)"
proof (induction s)
  case Nil
  then show ?case by (simp add: escape_Nil)
next
  case (Cons c s)
  with length_escaped_char [of c] show ?case by (simp add: escape_Cons)
qed

lemma length_text_command_ge: "length t \<le> length (text_command sz y t)"
  using length_escape_ge [of t] by (simp add: text_command_def)

lemma length_object_bytes_ge: "length b \<le> length (object_bytes i (Some b))"
  by (simp add: object_bytes_def Let_def)

lemma length_content_body_ge: "length s \<le> length (content_body s)"
  by (simp add: content_body_def)

lemma long_text_props: "length long_text = 10 ^ 10" "latin1 long_text"
  by (simp_all add: long_text_def)

lemma long_pages_latin1: "page_texts_latin1 long_pages"
  by (simp add: page_texts_latin1_def long_pages_def long_text_props)

lemma long_pages_objects:
  "expected_objects long_pages =
     [None, Some font_body, Some (content_body (build_content_stream [(long_text, 10)])),
      Some (page_body 4 2 1), Some (pages_body 1 (kids_text [3])), Some (catalog_body 4)]"
  by (simp add: expected_objects_def long_pages_def Let_def)

lemma font_object_length: "length (object_bytes 1 (Some font_body)) = 68"
  by code_simp

lemma long_stream_length: "10 ^ 10 \<le> length (build_content_stream [(long_text, 10)])"
proof -
  have "build_content_stream [(long_text, 10)] =
        text_command 10 (max (PAGE_HEIGHT - MARGIN - 10) MARGIN) long_text"
    by (simp add: build_content_stream_def Let_def)
  with length_text_command_ge [of long_text] show ?thesis
    by (simp add: long_text_props)
qed

lemma long_pages_broken: "\<not> xref_ok (pdf_bytes (expected_objects long_pages) 5) 5"
proof -
  define stream where "stream = build_content_stream [(long_text, 10)]"
  define objs where "objs = expected_objects long_pages"
  have objs_eq: "objs = [None, Some font_body, Some (content_body stream),
      Some (page_body 4 2 1), Some (pages_body 1 (kids_text [3])), Some (catalog_body 4)]"
    by (simp add: objs_def long_pages_objects stream_def)
  have len: "length objs = 5 + 1"
    by (simp add: objs_eq)
  have big: "10 ^ 10 \<le> length (object_bytes 2 (Some (content_body stream)))"
    using long_stream_length length_content_body_ge [of stream]
      length_object_bytes_ge [of "content_body stream" 2]
    by (simp add: stream_def)
  have o0: "object_offsets 9 (drop 1 objs) 1 ! 0 = 9"
    by (simp add: objs_eq)
  have o1: "object_offsets 9 (drop 1 objs) 1 ! 1 = 77"
    using font_object_length by (simp add: objs_eq)
  have o2: "object_offsets 9 (drop 1 objs) 1 ! 2 =
            77 + length (object_bytes 2 (Some (content_body stream)))"
    using font_object_length by (simp add: objs_eq numeral_2_eq_2)
  have small: "object_offsets 9 (drop 1 objs) 1 ! j < 10 ^ 10" if "j < 2" for j
  proof -
    from that have "j = 0 \<or> j = 1" by auto
    then show ?thesis using o0 o1 by auto
  qed
  have big3: "10 ^ 10 \<le> object_offsets 9 (drop 1 objs) 1 ! 2"
    unfolding o2 using big by simp
  have "\<not> entry_ok (pdf_bytes objs 5) (5 + 1) (2 + 1)"
    by (rule entry_broken [OF len _ small big3]) simp_all
  moreover have "(2 + 1 :: nat) \<in> set [1..<5 + 1]"
    by simp
  ultimately have "\<not> list_all (entry_ok (pdf_bytes objs 5) (5 + 1)) [1..<5 + 1]"
    unfolding list_all_iff by blast
  then show ?thesis
    by (simp add: xref_ok_def Let_def objs_def)
qed

section \<open>The claims about the serialiser\<close>

lemma sample_render: "render_pdf sample_pages = Inr sample_pdf"
  by code_simp

lemma sample_length: "length sample_pdf < 10 ^ 10"
  by (simp add: sample_pdf_def lit_def)

lemma length_expected_objects: "length (expected_objects pages) = 2 * length pages + 4"
  by (simp add: expected_objects_def Let_def)

lemma render_pdf_Inr:
  "render_pdf pages = Inr out \<Longrightarrow>
   page_texts_latin1 pages \<and> out = pdf_bytes (expected_objects pages) (2 * length pages + 3)"
  by (simp add: render_pdf_eq split: if_splits)

lemma xref_entry_pdf_bytes:
  assumes short: "length (pdf_bytes objects catalog_id) < 10 ^ 10"
    and tot: "length objects = N + 1" and k: "k < N"
  shows "xref_entry (pdf_bytes objects catalog_id) (N + 1) (k + 1) =
           format_010d (object_offsets 9 (drop 1 objects) 1 ! k) @ lit '' 00000 n \<newline>''"
    and "length (format_010d (object_offsets 9 (drop 1 objects) 1 ! k)) = 10"
proof -
  define hdr where "hdr = lit ''%PDF-1.4\<newline>''"
  define objs where "objs = drop 1 objects"
  define body where "body = hdr @ objects_bytes objs 1"
  define offs where "offs = object_offsets 9 objs 1"
  define es where "es = free_entry # map xref_entry_text offs"
  define tr where "tr = trailer_text (N + 1) catalog_id (length body)"
  define out where "out = pdf_bytes objects catalog_id"
  have out_eq: "out = body @ xref_head (N + 1) @ concat es @ tr"
    unfolding out_def pdf_bytes_shape body_def hdr_def objs_def offs_def es_def tr_def tot ..
  have len_objs: "length objs = N"
    by (simp add: objs_def tot)
  have len_hdr: "length hdr = 9"
    by (simp add: hdr_def lit_def)
  have x: "read_startxref out = length body"
    unfolding out_def body_def hdr_def objs_def by (rule read_startxref_pdf_bytes)
  have off_small: "offs ! j < 10 ^ 10" if "j < N" for j
  proof -
    have "offs ! j \<le> 9 + length (objects_bytes objs 1)"
      unfolding offs_def using that len_objs by (intro object_offsets_bound) simp
    also have "\<dots> = length body"
      by (simp add: body_def len_hdr)
    also have "\<dots> \<le> length out"
      by (simp add: out_eq)
    finally show ?thesis using short by (simp add: out_def)
  qed
  have len_offs: "length offs = N"
    by (simp add: offs_def len_objs)
  have all20: "list_all (\<lambda>e. length e = 20) es"
    unfolding es_def list_all_iff
  proof
    fix e assume "e \<in> set (free_entry # map xref_entry_text offs)"
    then consider "e = free_entry" | j where "j < N" "e = xref_entry_text (offs ! j)"
      using len_offs by (auto simp: in_set_conv_nth)
    then show "length e = 20"
    proof cases
      case 1
      then show ?thesis by simp
    next
      case 2
      then show ?thesis using length_xref_entry_text [OF off_small [of j]] by simp
    qed
  qed
  have in_range: "k + 1 < length es"
    using k len_offs by (simp add: es_def)
  have "xref_entry out (N + 1) (k + 1) =
          bytes_at out (length body + length (xref_head (N + 1)) + 20 * (k + 1)) 20"
    by (simp only: xref_entry_def x)
  also have "\<dots> = bytes_at (body @ xref_head (N + 1) @ concat es @ tr)
            (length (body @ xref_head (N + 1)) + 20 * (k + 1)) 20"
    by (simp add: out_eq)
  also have "\<dots> = take 20 (drop (20 * (k + 1)) (concat es @ tr))"
    using bytes_at_append [of "body @ xref_head (N + 1)" _ "concat es @ tr" "20 * (k + 1)" 20]
    by (simp add: bytes_at_def)
  also have "\<dots> = es ! (k + 1)"
    by (rule blocks_nth [OF all20 in_range])
  finally show "xref_entry (pdf_bytes objects catalog_id) (N + 1) (k + 1) =
           format_010d (object_offsets 9 (drop 1 objects) 1 ! k) @ lit '' 00000 n \<newline>''"
    using k len_offs by (simp add: es_def xref_entry_text_def out_def offs_def objs_def)
  show "length (format_010d (object_offsets 9 (drop 1 objects) 1 ! k)) = 10"
    using length_format_010d [OF off_small [OF k]] by (simp add: offs_def objs_def)
qed

lemma object_starts_pdf_bytes:
  assumes tot: "length objects = N + 1" and k: "k < N"
  shows "object_starts_at (pdf_bytes objects catalog_id) objects (k + 1)
           (object_offsets 9 (drop 1 objects) 1 ! k)"
proof -
  define before where "before = lit ''%PDF-1.4\<newline>'' @ objects_bytes (take k (drop 1 objects)) 1"
  define off where "off = object_offsets 9 (drop 1 objects) 1 ! k"
  define this where "this = object_bytes (k + 1) (objects ! (k + 1))"
  have len_objs: "k < length (drop 1 objects)"
    using k by (simp add: tot)
  have nth: "drop 1 objects ! k = objects ! (k + 1)"
    using k tot by simp
  have off_eq: "length before = off"
    using len_objs by (simp add: before_def off_def object_offsets_nth lit_def)
  have "objects_bytes (drop 1 objects) 1 =
        objects_bytes (take k (drop 1 objects)) 1 @ this
          @ objects_bytes (drop (Suc k) (drop 1 objects)) (1 + k + 1)"
    using objects_bytes_split [OF len_objs, of 1] nth by (simp add: this_def add.commute)
  then obtain rest where out: "pdf_bytes objects catalog_id = before @ this @ rest"
    unfolding pdf_bytes_shape before_def by simp
  have "take off (pdf_bytes objects catalog_id) = before"
    unfolding out using off_eq by simp
  moreover have "begins_at (pdf_bytes objects catalog_id) off this"
    unfolding out by (rule begins_at_append [OF off_eq])
  ultimately show ?thesis
    by (simp add: object_starts_at_def before_def off_def this_def)
qed

lemma entry_offset_pdf_bytes:
  assumes "length (pdf_bytes objects catalog_id) < 10 ^ 10" and "length objects = N + 1"
    and "k < N"
  shows "entry_offset (pdf_bytes objects catalog_id) (N + 1) (k + 1) =
           object_offsets 9 (drop 1 objects) 1 ! k"
  unfolding entry_offset_def using xref_entry_pdf_bytes [OF assms]
  by (simp add: parse_format_010d)

lemma xref_exact_pdf_bytes:
  assumes short: "length (pdf_bytes objects catalog_id) < 10 ^ 10"
    and tot: "length objects = N + 1"
  shows "xref_exact (pdf_bytes objects catalog_id) objects"
proof -
  have "object_starts_at (pdf_bytes objects catalog_id) objects i
          (entry_offset (pdf_bytes objects catalog_id) (N + 1) i)"
    if "i \<in> set [1..<N + 1]" for i
  proof -
    define k where "k = i - 1"
    have k: "i = k + 1" "k < N"
      using that by (auto simp: k_def)
    show ?thesis
      unfolding k(1) entry_offset_pdf_bytes [OF short tot k(2)]
      by (rule object_starts_pdf_bytes [OF tot k(2)])
  qed
  with xref_ok_pdf_bytes [OF short tot] show ?thesis
    by (simp add: xref_exact_def tot list_all_iff)
qed

lemma sample_offsets: "map (entry_offset sample_pdf 6) [1..<6] = [9, 77, 160, 286, 343]"
proof -
  have pdf: "sample_pdf = pdf_bytes (expected_objects sample_pages) 5"
    using render_pdf_Inr [OF sample_render] by (simp add: sample_pages_def)
  have short: "length (pdf_bytes (expected_objects sample_pages) 5) < 10 ^ 10"
    using sample_length by (simp only: pdf)
  have tot: "length (expected_objects sample_pages) = 5 + 1"
    by (simp add: length_expected_objects sample_pages_def)
  have offs: "object_offsets 9 (drop 1 (expected_objects sample_pages)) 1 = [9, 77, 160, 286, 343]"
    by code_simp
  have e: "entry_offset sample_pdf 6 (k + 1) = [9, 77, 160, 286, 343] ! k" if "k < 5" for k
    unfolding pdf using entry_offset_pdf_bytes [OF short tot that] by (simp only: offs) simp
  have "[1..<6] = [0 + 1, 1 + 1, 2 + 1, 3 + 1, 4 + 1 :: nat]"
    by code_simp
  then show ?thesis
    by (simp only: list.map e) simp
qed

text \<open>
  C1, as amended. In the bytes returned by \<^verbatim>\<open>render_pdf\<close> for any page list, provided the output is
  shorter than \<open>10\<^sup>1\<^sup>0\<close> bytes: the number after \<^verbatim>\<open>startxref\<close> is the position of the
  \<^verbatim>\<open>xref\<close> head line; the first entry of the table is the free entry; and for every object id
  \<open>i\<close> from 1 to \<open>N = 2P + 3\<close> the \<open>i\<close>-th entry is a 20-byte line of ten digits and
  \<^verbatim>\<open> 00000 n \<close>, whose digits are the byte position at which object \<open>i\<close> begins: the output
  before that position is exactly the header line followed by the objects 1 to \<open>i - 1\<close>, and
  object \<open>i\<close>, headed by \<^verbatim>\<open>i 0 obj\<close>, stands at it.
\<close>

theorem xref_offsets_are_object_starts:
  assumes "render_objects pages = Inr (objects, catalog_id)"
    and "render_pdf pages = Inr out" and "length out < 10 ^ 10"
  shows "length objects = 2 * length pages + 4 \<and> xref_exact out objects"
proof -
  from assms(1) have objs: "objects = expected_objects pages"
    and cid: "catalog_id = 2 * length pages + 3"
    by (simp_all add: render_objects_eq)
  from render_pdf_Inr [OF assms(2)]
  have out: "out = pdf_bytes objects (2 * length pages + 3)" by (simp add: objs)
  have len: "length objects = (2 * length pages + 3) + 1"
    by (simp add: objs length_expected_objects)
  from assms(3) have "xref_exact out objects"
    unfolding out by (rule xref_exact_pdf_bytes [OF _ len])
  with len show ?thesis by simp
qed

text \<open>The amended claim at the one-page sample document, with the five offsets its table gives.\<close>

theorem xref_offsets_are_object_starts_witness:
  "render_objects sample_pages = Inr (expected_objects sample_pages, 5)
   \<and> render_pdf sample_pages = Inr sample_pdf \<and> length sample_pdf < 10 ^ 10
   \<and> length (expected_objects sample_pages) = 2 * length sample_pages + 4
   \<and> xref_exact sample_pdf (expected_objects sample_pages)
   \<and> map (entry_offset sample_pdf 6) [1..<6] = [9, 77, 160, 286, 343]"
proof -
  have ro: "render_objects sample_pages = Inr (expected_objects sample_pages, 5)"
    by (simp add: render_objects_eq sample_pages_def)
  from xref_offsets_are_object_starts [OF ro sample_render sample_length]
    ro sample_render sample_length sample_offsets
  show ?thesis by blast
qed

text \<open>
  C1 as stated fails for a large document. A page that shows \<open>10\<^sup>1\<^sup>0\<close> letters is rendered,
  the offset of object 3 then has eleven digits, and its entry is not a 20-byte line.
\<close>

theorem xref_entry_overflow_exact:
  "render_objects long_pages = Inr (expected_objects long_pages, 5)
   \<and> render_pdf long_pages = Inr (pdf_bytes (expected_objects long_pages) 5)
   \<and> \<not> xref_exact (pdf_bytes (expected_objects long_pages) 5) (expected_objects long_pages)"
proof -
  have five: "2 * length long_pages + 3 = 5"
    by (simp add: long_pages_def)
  have len: "length (expected_objects long_pages) - 1 = 5"
    by (simp add: length_expected_objects long_pages_def)
  have "\<not> xref_ok (pdf_bytes (expected_objects long_pages) 5) (length (expected_objects long_pages) - 1)"
    unfolding len by (rule long_pages_broken)
  then have "\<not> xref_exact (pdf_bytes (expected_objects long_pages) 5)
      (expected_objects long_pages)"
    unfolding xref_exact_def by blast
  with five long_pages_latin1 show ?thesis
    by (simp add: render_pdf_eq render_objects_eq)
qed

lemma page_objects_nth:
  "k < length pages \<Longrightarrow>
   page_objects parent font n pages ! (2 * k) =
     Some (content_body (build_content_stream (pages ! k)))
   \<and> page_objects parent font n pages ! (2 * k + 1) = Some (page_body parent (n + 2 * k) font)"
proof (induction pages arbitrary: n k)
  case Nil
  then show ?case by simp
next
  case (Cons page pages)
  show ?case
  proof (cases k)
    case 0
    then show ?thesis by simp
  next
    case (Suc j)
    with Cons.prems Cons.IH [of j "n + 2"] show ?thesis by simp
  qed
qed

lemma expected_objects_nth:
  assumes "k < length pages"
  shows "expected_objects pages ! (2 * k + 2) =
           Some (content_body (build_content_stream (pages ! k)))"
    and "expected_objects pages ! (2 * k + 3) =
           Some (page_body (2 * length pages + 2) (2 * k + 2) 1)"
proof -
  define po where "po = page_objects (2 * length pages + 2) 1 2 pages"
  define rest where "rest = po @ [Some (pages_body (length pages)
      (kids_text (map (\<lambda>k. 2 * k + 3) [0..<length pages]))), Some (catalog_body (2 * length pages + 2))]"
  have e: "expected_objects pages = None # Some font_body # rest"
    by (simp add: expected_objects_def Let_def rest_def po_def)
  have l: "length po = 2 * length pages"
    by (simp add: po_def)
  have "rest ! (2 * k) = po ! (2 * k)" "rest ! (2 * k + 1) = po ! (2 * k + 1)"
    using assms l by (simp_all add: rest_def nth_append)
  moreover have "(None # Some font_body # rest) ! (2 * k + 2) = rest ! (2 * k)"
    "(None # Some font_body # rest) ! (2 * k + 3) = rest ! (2 * k + 1)"
    by (simp_all add: numeral_3_eq_3)
  ultimately show "expected_objects pages ! (2 * k + 2) =
           Some (content_body (build_content_stream (pages ! k)))"
    and "expected_objects pages ! (2 * k + 3) =
           Some (page_body (2 * length pages + 2) (2 * k + 2) 1)"
    using page_objects_nth [OF assms, of "2 * length pages + 2" 1 2]
    by (simp_all add: e po_def add.commute)
qed

lemma objects_bytes_concat:
  "objects_bytes objs i = concat (map (\<lambda>j. object_bytes (i + j) (objs ! j)) [0..<length objs])"
proof (induction objs arbitrary: i)
  case Nil
  then show ?case by simp
next
  case (Cons c objs)
  have "map (\<lambda>j. object_bytes (i + j) ((c # objs) ! j)) [0..<Suc (length objs)] =
        object_bytes i c # map (\<lambda>j. object_bytes (i + 1 + j) (objs ! j)) [0..<length objs]"
    by (simp add: map_upt_Suc del: upt_Suc)
  with Cons.IH [of "i + 1"] show ?case by simp
qed

lemma object_bytes_plain:
  "\<not> ends_with_newline (body_of c) \<Longrightarrow>
   object_bytes i c = str_nat i @ lit '' 0 obj\<newline>'' @ body_of c @ lit ''\<newline>endobj\<newline>''"
  by (simp add: object_bytes_def body_of_def Let_def lit_def)

lemma ends_with_gt: "\<not> ends_with_newline (a @ lit ''>>'')"
  by (simp add: ends_with_newline_def lit_def)

lemma bodies_end:
  "\<not> ends_with_newline font_body" "\<not> ends_with_newline (content_body s)"
  "\<not> ends_with_newline (page_body a b c)" "\<not> ends_with_newline (pages_body n kids)"
  "\<not> ends_with_newline (catalog_body a)"
  by (simp_all add: ends_with_newline_def font_body_def content_body_def page_body_def
      pages_body_def catalog_body_def lit_def)

lemma page_objects_end:
  "list_all (\<lambda>c. \<not> ends_with_newline (body_of c)) (page_objects parent font n pages)"
  by (induction pages arbitrary: n) (simp_all add: bodies_end)

lemma expected_objects_end:
  "list_all (\<lambda>c. \<not> ends_with_newline (body_of c)) (drop 1 (expected_objects pages))"
  by (simp add: expected_objects_def Let_def page_objects_end bodies_end)

lemma objects_part_literal:
  "objects_bytes (drop 1 (expected_objects pages)) 1 =
     concat (map (\<lambda>i. str_nat i @ lit '' 0 obj\<newline>'' @ body_of (expected_objects pages ! i)
                         @ lit ''\<newline>endobj\<newline>'')
               [1..<2 * length pages + 4])"
proof -
  define objs where "objs = drop 1 (expected_objects pages)"
  have len: "length objs = 2 * length pages + 3"
    by (simp add: objs_def length_expected_objects)
  have nth: "objs ! j = expected_objects pages ! Suc j" if "j < length objs" for j
    using that by (simp add: objs_def length_expected_objects)
  have plain: "object_bytes (Suc j) (objs ! j) =
      str_nat (Suc j) @ lit '' 0 obj\<newline>'' @ body_of (expected_objects pages ! Suc j)
        @ lit ''\<newline>endobj\<newline>''" if "j < length objs" for j
  proof -
    have "\<not> ends_with_newline (body_of (objs ! j))"
      using expected_objects_end [of pages] that
      unfolding objs_def [symmetric] list_all_length by blast
    from object_bytes_plain [OF this, of "Suc j"] nth [OF that] show ?thesis by simp
  qed
  have "2 * length pages + 4 = Suc (length objs)"
    by (simp add: len)
  moreover have "[1..<Suc (length objs)] = map Suc [0..<length objs]"
    by (simp add: map_Suc_upt)
  ultimately have range: "[1..<2 * length pages + 4] = map Suc [0..<length objs]"
    by (simp only:)
  have bodies: "map (\<lambda>j. str_nat (Suc j) @ lit '' 0 obj\<newline>''
                         @ body_of (expected_objects pages ! Suc j) @ lit ''\<newline>endobj\<newline>'')
                  [0..<length objs] =
                 map (\<lambda>j. object_bytes (1 + j) (objs ! j)) [0..<length objs]"
    by (rule map_cong) (simp_all add: plain)
  have "map (\<lambda>i. str_nat i @ lit '' 0 obj\<newline>'' @ body_of (expected_objects pages ! i)
                         @ lit ''\<newline>endobj\<newline>'') (map Suc [0..<length objs]) =
        map (\<lambda>j. str_nat (Suc j) @ lit '' 0 obj\<newline>''
                         @ body_of (expected_objects pages ! Suc j) @ lit ''\<newline>endobj\<newline>'')
                  [0..<length objs]"
    unfolding map_map o_def ..
  then show ?thesis
    unfolding range objs_def [symmetric] objects_bytes_concat [of objs 1] bodies by (simp only:)
qed

lemma page_dimensions: "str_int PAGE_WIDTH = lit ''612''" "str_int PAGE_HEIGHT = lit ''792''"
  by code_simp+

lemma page_body_literal:
  "page_body parent content 1 =
     lit ''<< /Type /Page /Parent '' @ str_nat parent @ lit '' 0 R /MediaBox [0 0 612 792] /Contents ''
       @ str_nat content @ lit '' 0 R /Resources << /Font << /F1 1 0 R >> >> >>''"
proof -
  have one: "str_nat 1 = lit ''1''"
    by code_simp
  show ?thesis
    unfolding page_body_def page_dimensions one by (simp add: lit_def)
qed

text \<open>
  C2. For a non-empty list of \<open>P\<close> pages that \<^verbatim>\<open>render_pdf\<close> renders to \<open>out\<close>, with the object
  table \<^verbatim>\<open>objects\<close> it builds: the catalog has id \<open>2P + 3\<close>; the table has the unused slot 0 and
  \<open>N = 2P + 3\<close> objects in the order of their allocation; object 1 is the one font; for the
  \<open>k\<close>-th page (from 0), object \<open>2k + 2\<close> is its content stream and object \<open>2k + 3\<close> its page
  dictionary, whose \<^verbatim>\<open>/Parent\<close> is \<open>2P + 2\<close>, \<^verbatim>\<open>/Contents\<close> is \<open>2k + 2\<close> and font is 1; object
  \<open>2P + 2\<close> is the page tree, with \<^verbatim>\<open>/Count P\<close> and as \<^verbatim>\<open>/Kids\<close> the ids \<open>3, 5, \<dots>, 2P + 1\<close>
  in page order; object \<open>2P + 3\<close> is the catalog, whose \<^verbatim>\<open>/Pages\<close> is \<open>2P + 2\<close>. The output is
  the header line, these \<open>N\<close> objects in the order of their ids, the cross-reference section
  headed \<^verbatim>\<open>0 N+1\<close>, and the trailer with \<^verbatim>\<open>/Size N+1\<close> and \<^verbatim>\<open>/Root 2P+3\<close>.
\<close>

theorem object_graph_shape:
  assumes "pages \<noteq> []" and "render_objects pages = Inr (objects, catalog_id)"
    and "render_pdf pages = Inr out"
  shows "catalog_id = 2 * length pages + 3
     \<and> length objects = 2 * length pages + 4
     \<and> objects ! 0 = None
     \<and> objects ! 1 = Some (lit ''<< /Type /Font /Subtype /Type1 /BaseFont /Courier >>'')
     \<and> (\<forall>k < length pages.
           objects ! (2 * k + 2) =
             Some (lit ''<< /Length '' @ str_nat (length (build_content_stream (pages ! k)))
                   @ lit '' >>\<newline>stream\<newline>'' @ build_content_stream (pages ! k)
                   @ lit ''\<newline>endstream'')
           \<and> objects ! (2 * k + 3) =
             Some (lit ''<< /Type /Page /Parent '' @ str_nat (2 * length pages + 2)
                   @ lit '' 0 R /MediaBox [0 0 612 792] /Contents '' @ str_nat (2 * k + 2)
                   @ lit '' 0 R /Resources << /Font << /F1 1 0 R >> >> >>''))
     \<and> objects ! (2 * length pages + 2) =
           Some (lit ''<< /Type /Pages /Count '' @ str_nat (length pages) @ lit '' /Kids [''
                 @ join (lit '' '') (map (\<lambda>k. str_nat (2 * k + 3) @ lit '' 0 R'') [0..<length pages])
                 @ lit ''] >>'')
     \<and> objects ! (2 * length pages + 3) =
           Some (lit ''<< /Type /Catalog /Pages '' @ str_nat (2 * length pages + 2) @ lit '' 0 R >>'')
     \<and> (\<exists>entries. out =
           lit ''%PDF-1.4\<newline>''
           @ concat (map (\<lambda>i. str_nat i @ lit '' 0 obj\<newline>'' @ body_of (objects ! i)
                               @ lit ''\<newline>endobj\<newline>'')
                       [1..<2 * length pages + 4])
           @ lit ''xref\<newline>0 '' @ str_nat (2 * length pages + 4) @ lit ''\<newline>''
           @ entries
           @ lit ''trailer\<newline><< /Size '' @ str_nat (2 * length pages + 4) @ lit '' /Root ''
           @ str_nat (2 * length pages + 3) @ lit '' 0 R >>\<newline>startxref\<newline>''
           @ str_nat (read_startxref out) @ lit ''\<newline>%%EOF'')"
proof -
  let ?P = "length pages"
  from assms(2) have objs: "objects = expected_objects pages" and cid: "catalog_id = 2 * ?P + 3"
    by (simp_all add: render_objects_eq)
  from render_pdf_Inr [OF assms(3)]
  have out: "out = pdf_bytes (expected_objects pages) (2 * ?P + 3)" by simp
  define po where "po = page_objects (2 * ?P + 2) 1 2 pages"
  define pt where "pt = Some (pages_body ?P (kids_text (map (\<lambda>k. 2 * k + 3) [0..<?P])))"
  have e: "expected_objects pages = None # Some font_body # po @ [pt, Some (catalog_body (2 * ?P + 2))]"
    by (simp add: expected_objects_def Let_def po_def pt_def)
  have lpo: "length po = 2 * ?P"
    by (simp add: po_def)
  have n0: "objects ! 0 = None"
    by (simp add: objs e)
  have n1: "objects ! 1 = Some (lit ''<< /Type /Font /Subtype /Type1 /BaseFont /Courier >>'')"
    by (simp add: objs e font_body_def)
  have npages: "\<forall>k < ?P.
           objects ! (2 * k + 2) =
             Some (lit ''<< /Length '' @ str_nat (length (build_content_stream (pages ! k)))
                   @ lit '' >>\<newline>stream\<newline>'' @ build_content_stream (pages ! k)
                   @ lit ''\<newline>endstream'')
           \<and> objects ! (2 * k + 3) =
             Some (lit ''<< /Type /Page /Parent '' @ str_nat (2 * ?P + 2)
                   @ lit '' 0 R /MediaBox [0 0 612 792] /Contents '' @ str_nat (2 * k + 2)
                   @ lit '' 0 R /Resources << /Font << /F1 1 0 R >> >> >>'')"
  proof (intro allI impI)
    fix k assume k: "k < ?P"
    from expected_objects_nth [OF k] show
      "objects ! (2 * k + 2) =
             Some (lit ''<< /Length '' @ str_nat (length (build_content_stream (pages ! k)))
                   @ lit '' >>\<newline>stream\<newline>'' @ build_content_stream (pages ! k)
                   @ lit ''\<newline>endstream'')
           \<and> objects ! (2 * k + 3) =
             Some (lit ''<< /Type /Page /Parent '' @ str_nat (2 * ?P + 2)
                   @ lit '' 0 R /MediaBox [0 0 612 792] /Contents '' @ str_nat (2 * k + 2)
                   @ lit '' 0 R /Resources << /Font << /F1 1 0 R >> >> >>'')"
      unfolding objs content_body_def page_body_literal by blast
  qed
  have "(po @ [pt, Some (catalog_body (2 * ?P + 2))]) ! (2 * ?P) = pt"
    "(po @ [pt, Some (catalog_body (2 * ?P + 2))]) ! (2 * ?P + 1) = Some (catalog_body (2 * ?P + 2))"
    using lpo by (simp_all add: nth_append)
  then have "objects ! (2 * ?P + 2) = pt" "objects ! (2 * ?P + 3) = Some (catalog_body (2 * ?P + 2))"
    by (simp_all add: objs e numeral_3_eq_3)
  then have ntree: "objects ! (2 * ?P + 2) =
           Some (lit ''<< /Type /Pages /Count '' @ str_nat ?P @ lit '' /Kids [''
                 @ join (lit '' '') (map (\<lambda>k. str_nat (2 * k + 3) @ lit '' 0 R'') [0..<?P])
                 @ lit ''] >>'')"
    and ncat: "objects ! (2 * ?P + 3) =
           Some (lit ''<< /Type /Catalog /Pages '' @ str_nat (2 * ?P + 2) @ lit '' 0 R >>'')"
    by (simp_all add: pt_def pages_body_def kids_text_def catalog_body_def o_def)
  have tr: "trailer_text (2 * ?P + 4) (2 * ?P + 3) x =
      lit ''trailer\<newline><< /Size '' @ str_nat (2 * ?P + 4) @ lit '' /Root ''
        @ str_nat (2 * ?P + 3) @ lit '' 0 R >>\<newline>startxref\<newline>'' @ str_nat x @ lit ''\<newline>%%EOF''" for x
    by (simp add: trailer_text_def)
  have shape: "out =
           lit ''%PDF-1.4\<newline>''
           @ concat (map (\<lambda>i. str_nat i @ lit '' 0 obj\<newline>'' @ body_of (objects ! i)
                               @ lit ''\<newline>endobj\<newline>'')
                       [1..<2 * ?P + 4])
           @ lit ''xref\<newline>0 '' @ str_nat (2 * ?P + 4) @ lit ''\<newline>''
           @ concat (free_entry # map xref_entry_text (object_offsets 9 (drop 1 objects) 1))
           @ lit ''trailer\<newline><< /Size '' @ str_nat (2 * ?P + 4) @ lit '' /Root ''
           @ str_nat (2 * ?P + 3) @ lit '' 0 R >>\<newline>startxref\<newline>''
           @ str_nat (read_startxref out) @ lit ''\<newline>%%EOF''"
    unfolding out read_startxref_pdf_bytes
    by (subst pdf_bytes_shape)
       (simp only: objs objects_part_literal length_expected_objects tr xref_head_def append_assoc)
  show ?thesis
    using cid n0 n1 npages ntree ncat shape
    by (simp only: objs length_expected_objects) blast
qed

text \<open>The claim at a document of two pages: seven objects, the page tree with \<^verbatim>\<open>/Count 2\<close> and
  the kids 3 and 5, the catalog 7 that the trailer names as \<^verbatim>\<open>/Root\<close>, and \<^verbatim>\<open>/Size 8\<close>.\<close>

theorem object_graph_shape_witness:
  "two_pages \<noteq> []
   \<and> render_objects two_pages = Inr (two_objects, 7)
   \<and> render_pdf two_pages = Inr two_pdf
   \<and> length two_objects = 8
   \<and> two_objects ! 2 = Some (lit ''<< /Length 34 >>\<newline>stream\<newline>BT /F1 10 Tf 40 742 Td (One) Tj ET\<newline>endstream'')
   \<and> two_objects ! 5 = Some (lit ''<< /Type /Page /Parent 6 0 R /MediaBox [0 0 612 792] /Contents 4 0 R /Resources << /Font << /F1 1 0 R >> >> >>'')
   \<and> two_objects ! 6 = Some (lit ''<< /Type /Pages /Count 2 /Kids [3 0 R 5 0 R] >>'')
   \<and> two_objects ! 7 = Some (lit ''<< /Type /Catalog /Pages 6 0 R >>'')"
proof -
  have ne: "two_pages \<noteq> []"
    by (simp add: two_pages_def)
  have ro: "render_objects two_pages = Inr (two_objects, 7)"
    by code_simp
  have rp: "render_pdf two_pages = Inr two_pdf"
    by code_simp
  have P: "length two_pages = 2"
    by (simp add: two_pages_def)
  have nums: "str_nat 2 = lit ''2''" "str_nat 4 = lit ''4''" "str_nat 6 = lit ''6''"
    "str_nat 34 = lit ''34''"
    "join (lit '' '') (map (\<lambda>k. str_nat (2 * k + 3) @ lit '' 0 R'') [0..<2]) = lit ''3 0 R 5 0 R''"
    by code_simp+
  have streams: "build_content_stream (two_pages ! 0) = lit ''BT /F1 10 Tf 40 742 Td (One) Tj ET''"
    by code_simp
  have len34: "length (lit ''BT /F1 10 Tf 40 742 Td (One) Tj ET'') = 34"
    by (simp add: lit_def)
  from object_graph_shape [OF ne ro rp] have
    len: "length two_objects = 2 * length two_pages + 4"
    and pages: "\<forall>k < length two_pages.
           two_objects ! (2 * k + 2) =
             Some (lit ''<< /Length '' @ str_nat (length (build_content_stream (two_pages ! k)))
                   @ lit '' >>\<newline>stream\<newline>'' @ build_content_stream (two_pages ! k)
                   @ lit ''\<newline>endstream'')
           \<and> two_objects ! (2 * k + 3) =
             Some (lit ''<< /Type /Page /Parent '' @ str_nat (2 * length two_pages + 2)
                   @ lit '' 0 R /MediaBox [0 0 612 792] /Contents '' @ str_nat (2 * k + 2)
                   @ lit '' 0 R /Resources << /Font << /F1 1 0 R >> >> >>'')"
    and tree: "two_objects ! (2 * length two_pages + 2) =
           Some (lit ''<< /Type /Pages /Count '' @ str_nat (length two_pages) @ lit '' /Kids [''
                 @ join (lit '' '') (map (\<lambda>k. str_nat (2 * k + 3) @ lit '' 0 R'') [0..<length two_pages])
                 @ lit ''] >>'')"
    and cat: "two_objects ! (2 * length two_pages + 3) =
           Some (lit ''<< /Type /Catalog /Pages '' @ str_nat (2 * length two_pages + 2) @ lit '' 0 R >>'')"
    by blast+
  have idx: "2 * 0 + 2 = (2::nat)" "2 * 1 + 3 = (5::nat)" "2 * 1 + 2 = (4::nat)"
    "2 * 2 + 2 = (6::nat)" "2 * 2 + 3 = (7::nat)" "2 * 2 + 4 = (8::nat)"
    by simp_all
  have k0: "(0::nat) < length two_pages" and k1: "(1::nat) < length two_pages"
    by (simp_all add: P)
  from pages k0 have "two_objects ! (2 * 0 + 2) =
             Some (lit ''<< /Length '' @ str_nat (length (build_content_stream (two_pages ! 0)))
                   @ lit '' >>\<newline>stream\<newline>'' @ build_content_stream (two_pages ! 0)
                   @ lit ''\<newline>endstream'')"
    by blast
  moreover from pages k1 have "two_objects ! (2 * 1 + 3) =
             Some (lit ''<< /Type /Page /Parent '' @ str_nat (2 * length two_pages + 2)
                   @ lit '' 0 R /MediaBox [0 0 612 792] /Contents '' @ str_nat (2 * 1 + 2)
                   @ lit '' 0 R /Resources << /Font << /F1 1 0 R >> >> >>'')"
    by blast
  ultimately have o2: "two_objects ! 2 = Some (lit ''<< /Length 34 >>\<newline>stream\<newline>BT /F1 10 Tf 40 742 Td (One) Tj ET\<newline>endstream'')"
    and o5: "two_objects ! 5 = Some (lit ''<< /Type /Page /Parent 6 0 R /MediaBox [0 0 612 792] /Contents 4 0 R /Resources << /Font << /F1 1 0 R >> >> >>'')"
    unfolding P streams len34 idx nums by (simp_all add: lit_def)
  from tree cat have o6: "two_objects ! 6 = Some (lit ''<< /Type /Pages /Count 2 /Kids [3 0 R 5 0 R] >>'')"
    and o7: "two_objects ! 7 = Some (lit ''<< /Type /Catalog /Pages 6 0 R >>'')"
    unfolding P idx nums by (simp_all add: lit_def)
  from len have l8: "length two_objects = 8"
    unfolding P idx .
  from ne ro rp l8 o2 o5 o6 o7 show ?thesis
    by blast
qed

text \<open>
  C3 as stated fails: \<^verbatim>\<open>render_pdf\<close> itself synthesizes nothing. For the empty page list it
  builds three objects, with a page tree of \<^verbatim>\<open>/Count 0\<close> and no kids, and its output differs
  from that of the single blank page.
\<close>

theorem render_pdf_empty_has_no_page:
  "render_objects [] =
     Inr ([None, Some font_body, Some (lit ''<< /Type /Pages /Count 0 /Kids [] >>''),
           Some (lit ''<< /Type /Catalog /Pages 2 0 R >>'')], 3)
   \<and> render_pdf [] \<noteq> render_pdf [[([], 10)]]"
proof -
  have "render_objects [] =
     Inr ([None, Some font_body, Some (lit ''<< /Type /Pages /Count 0 /Kids [] >>''),
           Some (lit ''<< /Type /Catalog /Pages 2 0 R >>'')], 3)"
    by code_simp
  moreover have "render_pdf [] \<noteq> render_pdf [[([], 10)]]"
    by code_simp
  ultimately show ?thesis by blast
qed

text \<open>
  C3, as amended. The single blank page is synthesized by \<^verbatim>\<open>_paginate\<close>: for no items it returns
  one page holding one blank item of size 10, and it never returns an empty list, so that
  \<^verbatim>\<open>build_pdf_table\<close> never hands \<^verbatim>\<open>render_pdf\<close> an empty page list; the document of the
  paginated empty input has page count 1. \<^verbatim>\<open>render_pdf\<close> builds one page for each element of the
  list it is given: its page tree has \<^verbatim>\<open>/Count\<close> equal to the length of that list.
\<close>

theorem blank_page_comes_from_paginate:
  "paginate [] = [[([], 10)]]
   \<and> paginate items \<noteq> []
   \<and> render_objects (paginate []) =
       Inr ([None, Some font_body,
             Some (content_body (lit ''BT /F1 10 Tf 40 742 Td () Tj ET'')),
             Some (page_body 4 2 1),
             Some (lit ''<< /Type /Pages /Count 1 /Kids [3 0 R] >>''),
             Some (catalog_body 4)], 5)
   \<and> (\<exists>objs. render_objects pages = Inr (objs, 2 * length pages + 3)
         \<and> objs ! (2 * length pages + 2) =
             Some (pages_body (length pages)
                    (kids_text (map (\<lambda>k. 2 * k + 3) [0..<length pages]))))"
proof (intro conjI)
  show "paginate [] = [[([], 10)]]"
    by (simp add: paginate_def)
  show "paginate items \<noteq> []"
    by (simp add: paginate_def split: prod.splits)
  show "render_objects (paginate []) =
       Inr ([None, Some font_body,
             Some (content_body (lit ''BT /F1 10 Tf 40 742 Td () Tj ET'')),
             Some (page_body 4 2 1),
             Some (lit ''<< /Type /Pages /Count 1 /Kids [3 0 R] >>''),
             Some (catalog_body 4)], 5)"
    by code_simp
  have "expected_objects pages ! (2 * length pages + 2) =
          Some (pages_body (length pages) (kids_text (map (\<lambda>k. 2 * k + 3) [0..<length pages])))"
    using nth_append_length [of "[None, Some font_body] @ page_objects (2 * length pages + 2) 1 2 pages"]
    by (simp add: expected_objects_def Let_def)
  then show "\<exists>objs. render_objects pages = Inr (objs, 2 * length pages + 3)
         \<and> objs ! (2 * length pages + 2) =
             Some (pages_body (length pages)
                    (kids_text (map (\<lambda>k. 2 * k + 3) [0..<length pages])))"
    by (simp add: render_objects_eq)
qed

section \<open>The table layout\<close>

lemma padded_cells_eq:
  "padded_cells cells index widths =
     (if cells = [] \<or> index + length cells \<le> length widths
      then Inr (map (\<lambda>(cell, width). ljust cell width) (zip cells (drop index widths)))
      else Inl IndexError)"
proof (induction cells arbitrary: index)
  case Nil
  then show ?case by simp
next
  case (Cons cell cells)
  show ?case
  proof (cases "index < length widths")
    case True
    then have d: "drop index widths = widths ! index # drop (index + 1) widths"
      by (simp add: Cons_nth_drop_Suc)
    from True show ?thesis
      by (auto simp: Cons.IH d)
  next
    case False
    then show ?thesis by simp
  qed
qed

lemma format_row_eq:
  "format_row cells widths =
     (if length cells \<le> length widths then Inr (formatted cells widths) else Inl IndexError)"
  by (auto simp: format_row_def padded_cells_eq formatted_def fields_def)

lemma list_max_simps [simp]:
  "list_max [] = 0" "list_max (n # ns) = max n (list_max ns)"
  "list_max (ms @ ns) = max (list_max ms) (list_max ns)"
  by (induction ms) (simp_all add: list_max_def)

lemma list_max_ge: "n \<in> set ns \<Longrightarrow> n \<le> list_max ns"
  by (induction ns) auto

lemma widths_parts_eq:
  "widths_parts parts index widths =
     (if parts = [] then Inr widths
      else if index < length widths
      then Inr (widths[index := max (widths ! index) (list_max (map length parts))])
      else Inl IndexError)"
proof (induction parts arbitrary: widths)
  case Nil
  then show ?case by simp
next
  case (Cons part parts)
  show ?case
    by (cases "parts = []") (auto simp: Cons.IH max.assoc)
qed

text \<open>One row: the columns it has are widened, the others stay.\<close>

lemma widths_row_ok:
  "index + length row \<le> length widths \<Longrightarrow>
   \<exists>widths'. widths_row row index widths = Inr widths' \<and> length widths' = length widths
     \<and> (\<forall>j < length widths. widths' ! j =
          (if index \<le> j \<and> j < index + length row
           then max (widths ! j) (list_max (map length (row ! (j - index))))
           else widths ! j))"
proof (induction row arbitrary: index widths)
  case Nil
  then show ?case by simp
next
  case (Cons parts row)
  define w1 where "w1 = (if parts = [] then widths
     else widths[index := max (widths ! index) (list_max (map length parts))])"
  from Cons.prems have i: "index < length widths" by simp
  have step: "widths_parts parts index widths = Inr w1"
    using i by (simp add: widths_parts_eq w1_def)
  have len1: "length w1 = length widths"
    by (simp add: w1_def)
  have w1_nth: "w1 ! j = (if j = index then max (widths ! j) (list_max (map length parts)) else widths ! j)"
    if "j < length widths" for j
    using that by (auto simp: w1_def)
  from Cons.prems len1 have "index + 1 + length row \<le> length w1" by simp
  from Cons.IH [OF this] obtain w2 where
    run: "widths_row row (index + 1) w1 = Inr w2" and len2: "length w2 = length w1"
    and nth2: "\<And>j. j < length w1 \<Longrightarrow> w2 ! j =
          (if index + 1 \<le> j \<and> j < index + 1 + length row
           then max (w1 ! j) (list_max (map length (row ! (j - (index + 1)))))
           else w1 ! j)"
    by blast
  have "w2 ! j =
          (if index \<le> j \<and> j < index + length (parts # row)
           then max (widths ! j) (list_max (map length ((parts # row) ! (j - index))))
           else widths ! j)" if j: "j < length widths" for j
  proof (cases "j = index")
    case True
    with nth2 [of j] w1_nth [of j] j len1 show ?thesis by simp
  next
    case False
    then have "index \<le> j \<Longrightarrow> j - index = Suc (j - (index + 1))"
      by simp
    then have "index \<le> j \<Longrightarrow> (parts # row) ! (j - index) = row ! (j - (index + 1))"
      by simp
    with False nth2 [of j] w1_nth [of j] j len1 show ?thesis by auto
  qed
  with step run len1 len2 show ?case by simp
qed

lemma widths_row_bad:
  "length widths < index + length row \<Longrightarrow> index \<le> length widths \<Longrightarrow>
   list_all (\<lambda>parts. parts \<noteq> []) row \<Longrightarrow>
   widths_row row index widths = Inl IndexError"
proof (induction row arbitrary: index widths)
  case Nil
  then show ?case by simp
next
  case (Cons parts row)
  show ?case
  proof (cases "index < length widths")
    case True
    define w1 where "w1 = widths[index := max (widths ! index) (list_max (map length parts))]"
    have step: "widths_parts parts index widths = Inr w1"
      using True Cons.prems by (simp add: widths_parts_eq w1_def)
    have "length w1 < index + 1 + length row" "index + 1 \<le> length w1"
      using Cons.prems True by (simp_all add: w1_def)
    from Cons.IH [OF this] Cons.prems step show ?thesis by simp
  next
    case False
    with Cons.prems show ?thesis by (simp add: widths_parts_eq)
  qed
qed

lemma widths_rows_ok:
  "list_all (\<lambda>row. length row \<le> length widths) rows \<Longrightarrow>
   \<exists>widths'. widths_rows rows widths = Inr widths' \<and> length widths' = length widths
     \<and> (\<forall>j < length widths. widths' ! j = max (widths ! j) (list_max (col_part_lengths rows j)))"
proof (induction rows arbitrary: widths)
  case Nil
  then show ?case by (simp add: col_part_lengths_def)
next
  case (Cons row rows)
  from Cons.prems have "0 + length row \<le> length widths" by simp
  from widths_row_ok [OF this] obtain w1 where
    step: "widths_row row 0 widths = Inr w1" and len1: "length w1 = length widths"
    and nth1: "\<And>j. j < length widths \<Longrightarrow> w1 ! j =
          (if j < length row then max (widths ! j) (list_max (map length (row ! j))) else widths ! j)"
    by auto
  from Cons.prems len1 have "list_all (\<lambda>row. length row \<le> length w1) rows" by simp
  from Cons.IH [OF this] obtain w2 where
    run: "widths_rows rows w1 = Inr w2" and len2: "length w2 = length w1"
    and nth2: "\<And>j. j < length w1 \<Longrightarrow> w2 ! j = max (w1 ! j) (list_max (col_part_lengths rows j))"
    by blast
  have "w2 ! j = max (widths ! j) (list_max (col_part_lengths (row # rows) j))"
    if "j < length widths" for j
    using nth1 [OF that] nth2 [of j] that len1
    by (simp add: col_part_lengths_def max.assoc)
  with step run len1 len2 show ?case by simp
qed

lemma widths_rows_bad:
  "\<not> list_all (\<lambda>row. length row \<le> length widths) rows \<Longrightarrow>
   list_all (list_all (\<lambda>parts. parts \<noteq> [])) rows \<Longrightarrow>
   widths_rows rows widths = Inl IndexError"
proof (induction rows arbitrary: widths)
  case Nil
  then show ?case by simp
next
  case (Cons row rows)
  show ?case
  proof (cases "length row \<le> length widths")
    case True
    then have "0 + length row \<le> length widths" by simp
    from widths_row_ok [OF this] obtain w1 where
      step: "widths_row row 0 widths = Inr w1" and len1: "length w1 = length widths"
      by auto
    from Cons.prems True len1 have "\<not> list_all (\<lambda>row. length row \<le> length w1) rows"
      by simp
    from Cons.IH [OF this] Cons.prems step show ?thesis by simp
  next
    case False
    then have "length widths < 0 + length row" by simp
    from widths_row_bad [OF this] Cons.prems show ?thesis by simp
  qed
qed

lemma column_widths_ok:
  assumes "rows_fit headers splits"
  shows "column_widths headers splits = Inr (spec_widths headers splits)"
proof -
  from assms have "list_all (\<lambda>row. length row \<le> length (map length headers)) splits"
    by (simp add: rows_fit_def)
  from widths_rows_ok [OF this] obtain w where
    run: "widths_rows splits (map length headers) = Inr w" and len: "length w = length headers"
    and nth: "\<And>j. j < length headers \<Longrightarrow>
       w ! j = max (length (headers ! j)) (list_max (col_part_lengths splits j))"
    by auto
  have "map (\<lambda>width. width + 2) w = spec_widths headers splits"
    by (rule nth_equalityI) (simp_all add: spec_widths_def len nth)
  with run show ?thesis by (simp add: column_widths_def)
qed

lemma column_widths_bad:
  "\<not> rows_fit headers splits \<Longrightarrow> list_all (list_all (\<lambda>parts. parts \<noteq> [])) splits \<Longrightarrow>
   column_widths headers splits = Inl IndexError"
  using widths_rows_bad [of "map length headers" splits]
  by (simp add: column_widths_def rows_fit_def)

lemma split_cell_nonempty [simp]: "split_cell v \<noteq> []"
  by (simp add: split_cell_def Let_def)

lemma length_spec_widths [simp]: "length (spec_widths headers splits) = length headers"
  by (simp add: spec_widths_def)

lemma length_line_cells [simp]: "length (line_cells row_segments index) = length row_segments"
  by (simp add: line_cells_def)

lemma index_loop_ok:
  "length row_segments \<le> length widths \<Longrightarrow>
   index_loop indices row_segments widths lines =
     Inr (lines @ map (\<lambda>index. formatted (line_cells row_segments index) widths) indices)"
  by (induction indices arbitrary: lines) (simp_all add: format_row_eq)

lemma splits_loop_ok:
  "list_all (\<lambda>row. length row \<le> length widths) splits \<Longrightarrow>
   splits_loop splits widths sep lines =
     Inr (lines @ concat (map (\<lambda>row_segments. row_lines widths row_segments @ [sep]) splits))"
  by (induction splits arbitrary: lines) (simp_all add: index_loop_ok row_lines_def Let_def)

lemma build_table_lines_ok:
  assumes "rows_fit headers rows"
  shows "build_table_lines headers rows = Inr (table_lines headers rows)"
proof -
  define splits where "splits = map (map split_cell) rows"
  have fit: "rows_fit headers splits"
    using assms by (simp add: rows_fit_def splits_def list_all_iff)
  then have fit': "list_all (\<lambda>row. length row \<le> length (spec_widths headers splits)) splits"
    by (simp add: rows_fit_def)
  have e: "(splits = []) = (rows = [])"
    by (simp add: splits_def)
  show ?thesis
    unfolding build_table_lines_def table_lines_def Let_def splits_def [symmetric]
    by (simp add: column_widths_ok [OF fit] format_row_eq splits_loop_ok [OF fit'] e)
qed

lemma build_table_lines_bad:
  assumes "\<not> rows_fit headers rows"
  shows "build_table_lines headers rows = Inl IndexError"
proof -
  define splits where "splits = map (map split_cell) rows"
  have fit: "\<not> rows_fit headers splits"
    using assms by (simp add: rows_fit_def splits_def list_all_iff)
  have ne: "list_all (list_all (\<lambda>parts. parts \<noteq> [])) splits"
    by (simp add: splits_def list_all_iff)
  show ?thesis
    unfolding build_table_lines_def Let_def splits_def [symmetric]
    by (simp add: column_widths_bad [OF fit ne])
qed

lemma length_ljust: "length (ljust s w) = max (length s) w"
  by (simp add: ljust_def)

lemma length_join:
  "length (join sep xs) = sum_list (map length xs) + length sep * (length xs - 1)"
  by (induction sep xs rule: join.induct) simp_all

lemma fields_lengths:
  "length cells \<le> length widths \<Longrightarrow> \<forall>j < length cells. length (cells ! j) \<le> widths ! j \<Longrightarrow>
   map length (fields cells widths) = take (length cells) widths"
  by (rule nth_equalityI) (simp_all add: fields_def length_ljust)

lemma length_formatted:
  assumes "length cells \<le> length widths" and "\<forall>j < length cells. length (cells ! j) \<le> widths ! j"
  shows "length (formatted cells widths) = sum_list (take (length cells) widths) + 3 * (length cells - 1)"
proof -
  have "length (fields cells widths) = length cells"
    using assms(1) by (simp add: fields_def)
  moreover have "length (lit '' | '') = 3"
    by (simp add: lit_def)
  ultimately show ?thesis
    by (simp add: formatted_def length_join fields_lengths [OF assms])
qed

lemma fields_take: "fields cells widths = fields cells (take (length cells) widths)"
proof -
  have "zip cells (take (length cells) widths) = take (length cells) (zip cells widths)"
    by (simp add: take_zip)
  then show ?thesis by (simp add: fields_def)
qed

text \<open>Every wrapped part of column \<open>j\<close>, and the header, is at least two shorter than the column.\<close>

lemma part_within_width:
  assumes "row \<in> set splits" and "j < length row" and "part \<in> set (row ! j)"
    and "j < length headers"
  shows "length part + 2 \<le> spec_widths headers splits ! j"
proof -
  have "length part \<in> set (col_part_lengths splits j)"
    using assms(1-3) by (auto simp: col_part_lengths_def intro!: bexI [of _ row])
  from list_max_ge [OF this] assms(4) show ?thesis
    by (simp add: spec_widths_def)
qed

lemma header_within_width:
  "j < length headers \<Longrightarrow> length (headers ! j) + 2 \<le> spec_widths headers splits ! j"
  by (simp add: spec_widths_def)

lemma line_cells_within_width:
  assumes "row \<in> set splits" and "length row \<le> length headers" and "j < length row"
  shows "length (line_cells row index ! j) \<le> spec_widths headers splits ! j"
proof (cases "index < length (row ! j)")
  case True
  then have "row ! j ! index \<in> set (row ! j)" by simp
  moreover from assms have "j < length headers" by simp
  ultimately have "length (row ! j ! index) + 2 \<le> spec_widths headers splits ! j"
    using assms by (intro part_within_width)
  with assms True show ?thesis
    by (simp add: line_cells_def)
next
  case False
  with assms show ?thesis by (simp add: line_cells_def)
qed

section \<open>What \<^verbatim>\<open>latin-1\<close> can encode of a table\<close>

lemma latin1_iff: "latin1 s = (\<forall>c \<in> set s. c < 256)"
  by (simp add: latin1_def list_all_iff)

lemma latin1_strip: "latin1 s \<Longrightarrow> latin1 (strip s)"
  unfolding latin1_iff strip_def by (auto dest!: set_dropWhileD)

lemma latin1_splitlines_from:
  "latin1 cur \<Longrightarrow> latin1 s \<Longrightarrow> list_all latin1 (splitlines_from cur s)"
proof (induction cur s rule: splitlines_from.induct)
  case (1 cur)
  then show ?case by simp
next
  case (2 cur c cs)
  from "2.prems" have c: "c < 256" and cs: "latin1 cs" and cur: "latin1 cur"
    by simp_all
  show ?case
  proof (cases "is_linebreak c")
    case False
    with "2.IH"(3) c cs cur show ?thesis by simp
  next
    case True
    show ?thesis
    proof (cases cs)
      case Nil
      with True cur show ?thesis by simp
    next
      case (Cons d ds)
      with cs have ds: "latin1 ds" by simp
      show ?thesis
      proof (cases "c = 13 \<and> d = 10")
        case yes: True
        from "2.IH"(1) [OF True Cons yes] ds have "list_all latin1 (splitlines_from [] ds)"
          by simp
        with True Cons yes cur show ?thesis
          unfolding splitlines_from.simps(2) [of cur c cs]
          by (auto simp del: splitlines_from.simps)
      next
        case no: False
        from "2.IH"(2) [OF True Cons no] cs have "list_all latin1 (splitlines_from [] cs)"
          by simp
        with True Cons no cur show ?thesis
          unfolding splitlines_from.simps(2) [of cur c cs]
          by (auto simp del: splitlines_from.simps)
      qed
    qed
  qed
qed

lemma latin1_split_cell: "cell_latin1 v \<Longrightarrow> list_all latin1 (split_cell v)"
proof -
  assume "cell_latin1 v"
  then have "list_all latin1 (splitlines (case v of None \<Rightarrow> [] | Some s \<Rightarrow> s))"
    by (auto simp: cell_latin1_def splitlines_def intro: latin1_splitlines_from split: option.splits)
  then show ?thesis
    by (auto simp: split_cell_def Let_def list_all_iff intro: latin1_strip)
qed

lemma latin1_ljust: "latin1 s \<Longrightarrow> latin1 (ljust s w)"
  by (simp add: ljust_def)

lemma latin1_formatted: "list_all latin1 cells \<Longrightarrow> latin1 (formatted cells widths)"
  by (auto simp: formatted_def fields_def latin1_join list_all_iff latin1_ljust dest!: set_zip_leftD)

lemma latin1_separator: "latin1 (separator widths)"
  by (simp add: separator_def latin1_join list_all_iff)

lemma latin1_line_cells:
  "list_all (list_all latin1) row_segments \<Longrightarrow> list_all latin1 (line_cells row_segments index)"
  by (auto simp: line_cells_def list_all_iff)

lemma latin1_table_lines:
  assumes "list_all latin1 headers" and "list_all (list_all cell_latin1) rows"
  shows "list_all latin1 (table_lines headers rows)"
proof -
  define splits where "splits = map (map split_cell) rows"
  define W where "W = spec_widths headers splits"
  have s: "list_all (list_all latin1) segs" if "segs \<in> set splits" for segs
  proof -
    from that obtain row where "row \<in> set rows" "segs = map split_cell row"
      by (auto simp: splits_def)
    with assms(2) show ?thesis
      by (auto simp: list_all_iff dest: latin1_split_cell [unfolded list_all_iff])
  qed
  have rl: "list_all latin1 (row_lines W segs @ [separator W])" if "segs \<in> set splits" for segs
  proof -
    have "latin1 (formatted (line_cells segs i) W)" for i
      by (intro latin1_formatted latin1_line_cells s that)
    then show ?thesis
      by (simp add: row_lines_def list_all_iff latin1_separator)
  qed
  have body: "list_all latin1 (concat (map (\<lambda>segs. row_lines W segs @ [separator W]) splits))"
    using rl by (auto simp: list_all_iff latin1_separator)
  have "table_lines headers rows =
        formatted headers W # separator W
          # concat (map (\<lambda>segs. row_lines W segs @ [separator W]) splits)
          @ (if rows = [] then [separator W] else [])"
    by (simp add: table_lines_def Let_def splits_def W_def)
  with body assms(1) show ?thesis
    by (simp add: latin1_formatted latin1_separator)
qed

lemma page_texts_latin1_concat:
  "page_texts_latin1 pages = list_all (\<lambda>it. latin1 (fst it)) (concat pages)"
  by (induction pages) (simp_all add: page_texts_latin1_def)

lemma table_items_latin1:
  "page_texts_latin1 (paginate (table_items title lines)) = (latin1 title \<and> list_all latin1 lines)"
proof -
  have "table_items title lines \<noteq> []"
    by (simp add: table_items_def)
  with paginate_props [of "table_items title lines"]
  have "concat (paginate (table_items title lines)) = table_items title lines"
    by blast
  then show ?thesis
    by (simp add: page_texts_latin1_concat table_items_def list_all_iff)
qed

lemma build_pdf_table_eq:
  "build_pdf_table title headers rows =
     (if \<not> rows_fit headers rows then Inl IndexError
      else if latin1 title \<and> list_all latin1 (table_lines headers rows)
      then Inr (pdf_bytes (expected_objects (paginate (table_items title (table_lines headers rows))))
                  (2 * length (paginate (table_items title (table_lines headers rows))) + 3))
      else Inl UnicodeEncodeError)"
  by (simp add: build_pdf_table_def build_table_lines_ok build_table_lines_bad render_pdf_eq
      table_items_latin1)

section \<open>The claims about the table layout\<close>

text \<open>Unfolding for the evaluation of the layout on given tables.\<close>

lemma replicate_numeral: "replicate (numeral k) x = x # replicate (pred_numeral k) x"
  by (simp add: numeral_eq_Suc)

lemmas cell_eval = split_cell_def splitlines_def is_linebreak_def strip_def is_space_def lit_def
  Let_def

lemmas lines_eval = build_table_lines_def column_widths_def format_row_def separator_def
  row_height_def line_cells_def ljust_def

lemmas layout_eval = table_lines_def spec_widths_def col_part_lengths_def row_lines_def
  formatted_def fields_def separator_def row_height_def line_cells_def ljust_def
  replicate_numeral

lemma ab_lines_built: "build_table_lines [lit ''A'', lit ''B''] [] = Inr ab_lines"
  by (simp add: lines_eval cell_eval ab_lines_def)

lemma ab_render: "render_pdf [table_items (lit ''T'') ab_lines] = Inr ab_pdf"
  by code_simp

text \<open>
  C7. For the headers \<^verbatim>\<open>A\<close>, \<^verbatim>\<open>B\<close> and no rows, both columns have width 3 (the header length
  plus 2) and \<^verbatim>\<open>_build_table_lines\<close> returns the header line and two separators. With any title
  the five items fit on one page, so \<^verbatim>\<open>build_pdf_table\<close> renders exactly that one page: the
  object table has one content stream and one page dictionary, and the page tree says
  \<^verbatim>\<open>/Count 1\<close>. A document is returned whenever \<^verbatim>\<open>latin-1\<close> can encode the title.
\<close>

theorem empty_table_document:
  "column_widths [lit ''A'', lit ''B''] [] = Inr [3, 3]
   \<and> build_table_lines [lit ''A'', lit ''B''] [] = Inr ab_lines
   \<and> ab_lines = [formatted [lit ''A'', lit ''B''] [3, 3], separator [3, 3], separator [3, 3]]
   \<and> paginate (table_items title ab_lines) = [table_items title ab_lines]
   \<and> build_pdf_table title [lit ''A'', lit ''B''] [] = render_pdf [table_items title ab_lines]
   \<and> render_objects [table_items title ab_lines] =
       Inr ([None, Some font_body,
             Some (content_body (build_content_stream (table_items title ab_lines))),
             Some (page_body 4 2 1),
             Some (lit ''<< /Type /Pages /Count 1 /Kids [3 0 R] >>''),
             Some (catalog_body 4)], 5)
   \<and> (latin1 title \<longrightarrow> (\<exists>out. build_pdf_table title [lit ''A'', lit ''B''] [] = Inr out))"
proof -
  have w: "column_widths [lit ''A'', lit ''B''] [] = Inr [3, 3]"
    by (simp add: column_widths_def lit_def)
  have l: "ab_lines = [formatted [lit ''A'', lit ''B''] [3, 3], separator [3, 3], separator [3, 3]]"
    by (simp add: ab_lines_def layout_eval lit_def)
  have p: "paginate (table_items title ab_lines) = [table_items title ab_lines]"
    by (simp add: paginate_def table_items_def ab_lines_def usable_height_def PAGE_HEIGHT_def
        MARGIN_def Let_def)
  have b: "build_pdf_table title [lit ''A'', lit ''B''] [] = render_pdf [table_items title ab_lines]"
    by (simp add: build_pdf_table_def ab_lines_built p)
  have k: "pages_body 1 (kids_text [3]) = lit ''<< /Type /Pages /Count 1 /Kids [3 0 R] >>''"
    by code_simp
  have o: "render_objects [table_items title ab_lines] =
       Inr ([None, Some font_body,
             Some (content_body (build_content_stream (table_items title ab_lines))),
             Some (page_body 4 2 1),
             Some (lit ''<< /Type /Pages /Count 1 /Kids [3 0 R] >>''),
             Some (catalog_body 4)], 5)"
    unfolding k [symmetric] by (simp add: render_objects_eq expected_objects_def Let_def)
  have "list_all latin1 ab_lines"
    by (simp add: ab_lines_def)
  then have r: "latin1 title \<longrightarrow> (\<exists>out. build_pdf_table title [lit ''A'', lit ''B''] [] = Inr out)"
    unfolding b by (simp add: render_pdf_eq page_texts_latin1_def table_items_def list_all_iff)
  from w ab_lines_built l p b o r show ?thesis by blast
qed

text \<open>The claim at the title \<^verbatim>\<open>T\<close>, with the document that is returned.\<close>

theorem empty_table_document_witness:
  "latin1 (lit ''T'') \<and> build_pdf_table (lit ''T'') [lit ''A'', lit ''B''] [] = Inr ab_pdf"
proof -
  from empty_table_document [of "lit ''T''"]
  have "build_pdf_table (lit ''T'') [lit ''A'', lit ''B''] [] = render_pdf [table_items (lit ''T'') ab_lines]"
    by blast
  with ab_render show ?thesis by simp
qed

lemma row_line_length:
  assumes fit: "rows_fit headers rows" and row: "row \<in> set rows"
    and line: "line \<in> set (row_lines (spec_widths headers (map (map split_cell) rows)) (map split_cell row))"
  shows "length line = sum_list (take (length row) (spec_widths headers (map (map split_cell) rows)))
           + 3 * (length row - 1)"
proof -
  define splits where "splits = map (map split_cell) rows"
  define segs where "segs = map split_cell row"
  have in_splits: "segs \<in> set splits"
    using row by (simp add: segs_def splits_def)
  have len: "length segs \<le> length headers"
    using fit row by (simp add: rows_fit_def list_all_iff segs_def)
  from line obtain index where l: "line = formatted (line_cells segs index) (spec_widths headers splits)"
    by (auto simp: row_lines_def segs_def splits_def)
  have "length (line_cells segs index ! j) \<le> spec_widths headers splits ! j" if "j < length segs" for j
    by (rule line_cells_within_width [OF in_splits len that])
  with len have "length line = sum_list (take (length (line_cells segs index)) (spec_widths headers splits))
           + 3 * (length (line_cells segs index) - 1)"
    unfolding l by (intro length_formatted) simp_all
  then show ?thesis
    by (simp add: segs_def splits_def)
qed

lemma header_line_length:
  "length (formatted headers (spec_widths headers splits)) =
     sum_list (spec_widths headers splits) + 3 * (length headers - 1)"
proof -
  have "length (headers ! j) \<le> spec_widths headers splits ! j" if "j < length headers" for j
    using header_within_width [OF that, of splits] by simp
  then have "length (formatted headers (spec_widths headers splits)) =
     sum_list (take (length headers) (spec_widths headers splits)) + 3 * (length headers - 1)"
    by (intro length_formatted) simp_all
  then show ?thesis by simp
qed

text \<open>
  C4, as amended. When no row has more cells than there are headers, \<^verbatim>\<open>_build_table_lines\<close>
  raises nothing and returns the lines of the layout. A formatted line has one field for each
  cell it is given and none for a missing trailing column: a line of \<open>k\<close> cells uses the first
  \<open>k\<close> widths only. So each body line of a row with \<open>k\<close> cells has the length of its \<open>k\<close> columns
  and their \<open>k - 1\<close> joints, while the header line has the length of all columns and joints; a
  row with fewer cells than headers gives shorter lines than the header line.
\<close>

theorem ragged_rows_are_cut_short:
  "(length cells \<le> length widths \<longrightarrow>
      format_row cells widths =
        Inr (join (lit '' | '') (fields cells (take (length cells) widths))))
   \<and> (rows_fit headers rows \<longrightarrow>
        build_table_lines headers rows = Inr (table_lines headers rows)
        \<and> (\<forall>row \<in> set rows.
             \<forall>line \<in> set (row_lines (spec_widths headers (map (map split_cell) rows))
                                   (map split_cell row)).
               length line =
                 sum_list (take (length row) (spec_widths headers (map (map split_cell) rows)))
                   + 3 * (length row - 1))
        \<and> length (formatted headers (spec_widths headers (map (map split_cell) rows))) =
             sum_list (spec_widths headers (map (map split_cell) rows)) + 3 * (length headers - 1))"
proof (intro conjI impI ballI)
  assume "length cells \<le> length widths"
  then show "format_row cells widths =
        Inr (join (lit '' | '') (fields cells (take (length cells) widths)))"
    using fields_take [of cells widths] by (simp add: format_row_eq formatted_def)
next
  assume "rows_fit headers rows"
  then show "build_table_lines headers rows = Inr (table_lines headers rows)"
    by (rule build_table_lines_ok)
next
  fix row line
  assume "rows_fit headers rows" "row \<in> set rows"
    "line \<in> set (row_lines (spec_widths headers (map (map split_cell) rows)) (map split_cell row))"
  then show "length line =
      sum_list (take (length row) (spec_widths headers (map (map split_cell) rows)))
        + 3 * (length row - 1)"
    by (rule row_line_length)
next
  show "length (formatted headers (spec_widths headers (map (map split_cell) rows))) =
      sum_list (spec_widths headers (map (map split_cell) rows)) + 3 * (length headers - 1)"
    by (rule header_line_length)
qed

text \<open>The amended claim at the headers \<^verbatim>\<open>A\<close>, \<^verbatim>\<open>B\<close> and the single row \<^verbatim>\<open>["x"]\<close>.\<close>

theorem ragged_rows_are_cut_short_witness:
  "rows_fit [lit ''A'', lit ''B''] [[Some (lit ''x'')]]
   \<and> build_table_lines [lit ''A'', lit ''B''] [[Some (lit ''x'')]] =
       Inr (table_lines [lit ''A'', lit ''B''] [[Some (lit ''x'')]])
   \<and> table_lines [lit ''A'', lit ''B''] [[Some (lit ''x'')]] =
       [lit ''A   | B  '', lit ''----+----'', lit ''x  '', lit ''----+----'']
   \<and> format_row [lit ''x''] [3, 3] = Inr (lit ''x  '')"
proof -
  have fit: "rows_fit [lit ''A'', lit ''B''] [[Some (lit ''x'')]]"
    by (simp add: rows_fit_def)
  have t: "table_lines [lit ''A'', lit ''B''] [[Some (lit ''x'')]] =
       [lit ''A   | B  '', lit ''----+----'', lit ''x  '', lit ''----+----'']"
    by (simp add: layout_eval cell_eval)
  have f: "join (lit '' | '') (fields [lit ''x''] (take (length [lit ''x'']) [3, 3])) = lit ''x  ''"
    by (simp add: layout_eval lit_def)
  from ragged_rows_are_cut_short [of "[lit ''x'']" "[3, 3]" "[lit ''A'', lit ''B'']" "[[Some (lit ''x'')]]"]
    fit t f show ?thesis by simp
qed

text \<open>
  C4 as stated fails: for the headers \<^verbatim>\<open>A\<close>, \<^verbatim>\<open>B\<close> and the row \<^verbatim>\<open>["x"]\<close> the body line is
  \<^verbatim>\<open>x\<close> and two blanks, three characters, where the header line has nine.
\<close>

theorem ragged_row_line_is_shorter:
  "build_table_lines [lit ''A'', lit ''B''] [[Some (lit ''x'')]] =
     Inr [lit ''A   | B  '', lit ''----+----'', lit ''x  '', lit ''----+----'']
   \<and> length (lit ''x  '') \<noteq> length (lit ''A   | B  '')"
proof -
  have "build_table_lines [lit ''A'', lit ''B''] [[Some (lit ''x'')]] =
     Inr [lit ''A   | B  '', lit ''----+----'', lit ''x  '', lit ''----+----'']"
    by (simp add: lines_eval cell_eval)
  moreover have "length (lit ''x  '') \<noteq> length (lit ''A   | B  '')"
    by (simp add: lit_def)
  ultimately show ?thesis by blast
qed

lemma full_line_fields:
  assumes fit: "rows_fit headers rows" and row: "row \<in> set rows"
    and full: "length row = length headers"
  shows "map length (fields (line_cells (map split_cell row) index)
                       (spec_widths headers (map (map split_cell) rows)))
         = spec_widths headers (map (map split_cell) rows)"
proof -
  define splits where "splits = map (map split_cell) rows"
  define segs where "segs = map split_cell row"
  have in_splits: "segs \<in> set splits"
    using row by (simp add: segs_def splits_def)
  have len: "length segs = length headers"
    using full by (simp add: segs_def)
  have "length (line_cells segs index ! j) \<le> spec_widths headers splits ! j" if "j < length segs" for j
    using line_cells_within_width [OF in_splits _ that, of headers index] len by simp
  then have "map length (fields (line_cells segs index) (spec_widths headers splits)) =
             take (length (line_cells segs index)) (spec_widths headers splits)"
    using len by (intro fields_lengths) simp_all
  then show ?thesis
    by (simp add: len segs_def [symmetric] splits_def [symmetric])
qed

lemma header_fields:
  "map length (fields headers (spec_widths headers splits)) = spec_widths headers splits"
proof -
  have "length (headers ! j) \<le> spec_widths headers splits ! j" if "j < length headers" for j
    using header_within_width [OF that, of splits] by simp
  then have "map length (fields headers (spec_widths headers splits)) =
             take (length headers) (spec_widths headers splits)"
    by (intro fields_lengths) simp_all
  then show ?thesis by simp
qed

lemma names_lines:
  "build_table_lines names_headers names_rows =
     Inr [lit ''ID   | Name                      '',
          lit ''-----+---------------------------'',
          lit ''1    | Alice                     '',
          lit ''-----+---------------------------'',
          lit ''2    | Bob and a very long name  '',
          lit ''-----+---------------------------'']"
  by (simp add: names_headers_def names_rows_def lines_eval cell_eval replicate_numeral)

lemma names_widths:
  "spec_widths names_headers (map (map split_cell) names_rows) =
     [4, length (lit ''Bob and a very long name'') + 2]"
  by (simp add: names_headers_def names_rows_def layout_eval cell_eval)

text \<open>
  C8, as amended. \<^verbatim>\<open>_format_row\<close> fills each cell with spaces on its right (\<^verbatim>\<open>ljust\<close>: the text
  stays at the left of its field) up to the width of its column, and joins the fields with
  \<^verbatim>\<open> | \<close>. The width of a column is the largest of its header length and the lengths of all
  wrapped parts in it, plus 2. With these widths every field of the header line, and of every
  line of a row that has a cell for each header, is exactly as wide as its column. In the
  example the second column is as wide as \<^verbatim>\<open>Bob and a very long name\<close> plus 2.
\<close>

theorem format_row_fills_on_the_right:
  "(length cells = length widths \<longrightarrow>
      format_row cells widths =
        Inr (join (lit '' | '')
              (map (\<lambda>(cell, width). cell @ replicate (width - length cell) 32) (zip cells widths))))
   \<and> (rows_fit headers rows \<longrightarrow>
        column_widths headers (map (map split_cell) rows) =
          Inr (map (\<lambda>j. max (length (headers ! j))
                          (list_max (col_part_lengths (map (map split_cell) rows) j)) + 2)
                 [0..<length headers])
        \<and> map length (fields headers (spec_widths headers (map (map split_cell) rows)))
            = spec_widths headers (map (map split_cell) rows)
        \<and> (\<forall>row \<in> set rows. length row = length headers \<longrightarrow>
              (\<forall>index. map length (fields (line_cells (map split_cell row) index)
                                     (spec_widths headers (map (map split_cell) rows)))
                        = spec_widths headers (map (map split_cell) rows))))
   \<and> spec_widths names_headers (map (map split_cell) names_rows) =
        [4, length (lit ''Bob and a very long name'') + 2]
   \<and> build_table_lines names_headers names_rows =
       Inr [lit ''ID   | Name                      '',
            lit ''-----+---------------------------'',
            lit ''1    | Alice                     '',
            lit ''-----+---------------------------'',
            lit ''2    | Bob and a very long name  '',
            lit ''-----+---------------------------'']"
proof (intro conjI impI ballI allI)
  assume "length cells = length widths"
  then show "format_row cells widths =
        Inr (join (lit '' | '')
              (map (\<lambda>(cell, width). cell @ replicate (width - length cell) 32) (zip cells widths)))"
    by (simp add: format_row_eq formatted_def fields_def ljust_def)
next
  assume "rows_fit headers rows"
  then have "rows_fit headers (map (map split_cell) rows)"
    by (simp add: rows_fit_def list_all_iff)
  then show "column_widths headers (map (map split_cell) rows) =
          Inr (map (\<lambda>j. max (length (headers ! j))
                          (list_max (col_part_lengths (map (map split_cell) rows) j)) + 2)
                 [0..<length headers])"
    by (simp add: column_widths_ok spec_widths_def)
next
  show "map length (fields headers (spec_widths headers (map (map split_cell) rows)))
            = spec_widths headers (map (map split_cell) rows)"
    by (rule header_fields)
next
  fix row index
  assume "rows_fit headers rows" "row \<in> set rows" "length row = length headers"
  then show "map length (fields (line_cells (map split_cell row) index)
                                     (spec_widths headers (map (map split_cell) rows)))
                        = spec_widths headers (map (map split_cell) rows)"
    by (rule full_line_fields)
next
  show "spec_widths names_headers (map (map split_cell) names_rows) =
        [4, length (lit ''Bob and a very long name'') + 2]"
    by (rule names_widths)
next
  show "build_table_lines names_headers names_rows =
       Inr [lit ''ID   | Name                      '',
            lit ''-----+---------------------------'',
            lit ''1    | Alice                     '',
            lit ''-----+---------------------------'',
            lit ''2    | Bob and a very long name  '',
            lit ''-----+---------------------------'']"
    by (rule names_lines)
qed

text \<open>The amended claim at the example table and at one line of two cells.\<close>

theorem format_row_fills_on_the_right_witness:
  "length [lit ''ab'', lit ''c''] = length [4, 2 :: nat]
   \<and> format_row [lit ''ab'', lit ''c''] [4, 2] = Inr (lit ''ab   | c '')
   \<and> rows_fit names_headers names_rows
   \<and> column_widths names_headers (map (map split_cell) names_rows) = Inr [4, 26]
   \<and> list_all (\<lambda>row. length row = length names_headers) names_rows"
proof -
  have fit: "rows_fit names_headers names_rows"
    by (simp add: rows_fit_def names_headers_def names_rows_def)
  have full: "list_all (\<lambda>row. length row = length names_headers) names_rows"
    by (simp add: names_headers_def names_rows_def)
  have j: "join (lit '' | '')
            (map (\<lambda>(cell, width). cell @ replicate (width - length cell) 32)
               (zip [lit ''ab'', lit ''c''] [4, 2])) = lit ''ab   | c ''"
    by (simp add: lit_def replicate_numeral)
  have w: "map (\<lambda>j. max (length (names_headers ! j))
                (list_max (col_part_lengths (map (map split_cell) names_rows) j)) + 2)
             [0..<length names_headers] = [4, 26]"
    using names_widths by (simp add: spec_widths_def lit_def)
  from format_row_fills_on_the_right [of "[lit ''ab'', lit ''c'']" "[4, 2]" names_headers names_rows]
    fit full j w show ?thesis by simp
qed

text \<open>
  C8 as stated fails on the side of the padding: \<^verbatim>\<open>ab\<close> in a column of width 4 is followed by
  two blanks, where padding on the left would put them in front.
\<close>

theorem format_row_does_not_pad_left:
  "format_row [lit ''ab''] [4] = Inr (lit ''ab  '')
   \<and> format_row [lit ''ab''] [4] \<noteq>
       Inr (join (lit '' | '') (map (\<lambda>(cell, width). left_pad cell width) (zip [lit ''ab''] [4])))"
  by (simp add: format_row_def ljust_def left_pad_def lit_def replicate_numeral)

lemma event_lines:
  "table_lines events_headers [event_without_callers] =
     [lit ''ID   | Room   | Callers/Cuers   | Start              | End                | Dance Types  '',
      lit ''-----+--------+-----------------+--------------------+--------------------+--------------'',
      lit ''1    | Hall   | '' @ [8212] @ lit ''               | 2025-01-01 10:00   | 2025-01-01 11:00   | Waltz        '',
      lit ''-----+--------+-----------------+--------------------+--------------------+--------------'']"
  by (simp add: events_headers_def event_without_callers_def callers_cell_def layout_eval cell_eval)

text \<open>
  C10. The first half of the claim fails on a table that the application itself builds. The
  events view has six headers, and \<^verbatim>\<open>event_row\<close> gives six cells; for an event without callers
  the third cell is the em dash. No row is longer than the headers, the table is laid out, and
  the \<^verbatim>\<open>latin-1\<close> encoding of the content stream raises \<^verbatim>\<open>UnicodeEncodeError\<close>: the export
  raises, although every row has as many cells as there are headers.
\<close>

theorem events_export_raises:
  "length event_without_callers = length events_headers
   \<and> rows_fit events_headers [event_without_callers]
   \<and> build_table_lines events_headers [event_without_callers] =
       Inr (table_lines events_headers [event_without_callers])
   \<and> encode_latin1 (table_lines events_headers [event_without_callers] ! 2) = Inl UnicodeEncodeError
   \<and> build_pdf_table (lit ''Events'') events_headers [event_without_callers] = Inl UnicodeEncodeError"
proof -
  have len: "length event_without_callers = length events_headers"
    by (simp add: event_without_callers_def events_headers_def)
  then have fit: "rows_fit events_headers [event_without_callers]"
    by (simp add: rows_fit_def)
  have enc: "encode_latin1 (table_lines events_headers [event_without_callers] ! 2) = Inl UnicodeEncodeError"
    unfolding event_lines by (simp add: encode_latin1_def lit_def)
  have "\<not> list_all latin1 (table_lines events_headers [event_without_callers])"
    unfolding event_lines by (simp add: lit_def)
  with fit have "build_pdf_table (lit ''Events'') events_headers [event_without_callers] = Inl UnicodeEncodeError"
    by (simp add: build_pdf_table_eq)
  with len fit enc build_table_lines_ok [OF fit] show ?thesis
    by simp
qed


end
